theory Spec2Isabelle
  imports Complex_Main "HOL-Library.Word"
begin

section \<open>Parallel computation of the digits of pi (BBP series over MPI, GMP floats)\<close>

text \<open>
  The development embeds \<^verbatim>\<open>pi_bbp_mpi.c\<close> and \<^verbatim>\<open>pi_mpi.c\<close>.

  \<^item> \<^verbatim>\<open>unsigned long\<close> is a 64-bit word: its arithmetic wraps.
  \<^item> \<^verbatim>\<open>int\<close> is a mathematical integer, and every addition that the program makes on
    \<^verbatim>\<open>int\<close> values is checked: a sum outside the range of a 32-bit \<^verbatim>\<open>int\<close> has no
    defined result in C and is the fault \<open>SignedOverflow\<close>. The \<^verbatim>\<open>long long\<close> values of
    the estimator stay between 0 and \<open>n = 1000000000\<close>.
  \<^item> A GMP float (\<^verbatim>\<open>mpf_t\<close>) is the rational number it holds. GMP defines every
    \<^verbatim>\<open>mpf\<close> function as the exact result followed by a truncation to the precision of
    the destination; that truncation is the parameter \<open>rd\<close> of the model. The rounding
    that \<^verbatim>\<open>gmp_sprintf\<close> applies in the last printed place is the parameter \<open>rnd\<close>.
  \<^item> A call that aborts the process (division by zero inside GMP, a write past the end
    of the transport buffer) is a \<open>fault\<close>.
\<close>

datatype fault = DivideByZero | BufferOverrun | NoProgress | SignedOverflow

type_synonym mpf = rat
type_synonym ulong = "64 word"

subsection \<open>Addition on \<^verbatim>\<open>int\<close>\<close>

definition INT_MAX :: int where
  "INT_MAX = 2147483647"

definition INT_MIN :: int where
  "INT_MIN = - 2147483648"

definition int_add :: "int \<Rightarrow> int \<Rightarrow> fault + int" where
  "int_add a b = (if INT_MIN \<le> a + b \<and> a + b \<le> INT_MAX then Inr (a + b) else Inl SignedOverflow)"

subsection \<open>The GMP operations used by the program\<close>

definition mpf_set_ui :: "ulong \<Rightarrow> mpf" where
  "mpf_set_ui n = of_nat (unat n)"

definition mpf_pow_ui :: "(rat \<Rightarrow> rat) \<Rightarrow> mpf \<Rightarrow> ulong \<Rightarrow> mpf" where
  "mpf_pow_ui rd b n = rd (b ^ unat n)"

definition mpf_div_ui :: "(rat \<Rightarrow> rat) \<Rightarrow> mpf \<Rightarrow> ulong \<Rightarrow> fault + mpf" where
  "mpf_div_ui rd u v = (if v = 0 then Inl DivideByZero else Inr (rd (u / of_nat (unat v))))"

definition mpf_div :: "(rat \<Rightarrow> rat) \<Rightarrow> mpf \<Rightarrow> mpf \<Rightarrow> fault + mpf" where
  "mpf_div rd u v = (if v = 0 then Inl DivideByZero else Inr (rd (u / v)))"

definition mpf_add :: "(rat \<Rightarrow> rat) \<Rightarrow> mpf \<Rightarrow> mpf \<Rightarrow> mpf" where
  "mpf_add rd u v = rd (u + v)"

definition mpf_sub :: "(rat \<Rightarrow> rat) \<Rightarrow> mpf \<Rightarrow> mpf \<Rightarrow> mpf" where
  "mpf_sub rd u v = rd (u - v)"

definition mpf_sub_ui :: "(rat \<Rightarrow> rat) \<Rightarrow> mpf \<Rightarrow> ulong \<Rightarrow> mpf" where
  "mpf_sub_ui rd u v = rd (u - of_nat (unat v))"

text \<open>
  What GMP guarantees of a float of precision \<open>prec\<close> bits: at least \<open>prec\<close> bits of
  mantissa are kept, so a truncation loses less than one part in \<open>2 ^ (prec - 1)\<close>, and
  truncating a second time changes nothing.
\<close>

definition mpf_accurate :: "nat \<Rightarrow> (rat \<Rightarrow> rat) \<Rightarrow> bool" where
  "mpf_accurate prec rd \<longleftrightarrow>
     (\<forall>x. \<bar>rd x - x\<bar> \<le> \<bar>x\<bar> / 2 ^ (prec - 1)) \<and> (\<forall>x. rd (rd x) = rd x)"

subsection \<open>The precision plan\<close>

definition calculate_precision :: "int \<Rightarrow> nat" where
  "calculate_precision digits = nat \<lfloor>(of_int digits :: rat) * (35 / 10) + 64\<rfloor>"

definition calculate_num_terms :: "int \<Rightarrow> fault + int" where
  "calculate_num_terms digits = int_add digits 10"

subsection \<open>The term evaluator\<close>

definition bindF :: "fault + 'a \<Rightarrow> ('a \<Rightarrow> fault + 'b) \<Rightarrow> fault + 'b" where
  "bindF m f = (case m of Inl e \<Rightarrow> Inl e | Inr x \<Rightarrow> f x)"

definition compute_bbp_term :: "(rat \<Rightarrow> rat) \<Rightarrow> ulong \<Rightarrow> fault + mpf" where
  "compute_bbp_term rd k =
     (let k8 = 8 * k;
          power16 = mpf_pow_ui rd (mpf_set_ui 16) k
      in bindF (mpf_div_ui rd (mpf_set_ui 4) (k8 + 1)) (\<lambda>term1.
         bindF (mpf_div_ui rd (mpf_set_ui 2) (k8 + 4)) (\<lambda>term2.
         bindF (mpf_div_ui rd (mpf_set_ui 1) (k8 + 5)) (\<lambda>term3.
         bindF (mpf_div_ui rd (mpf_set_ui 1) (k8 + 6)) (\<lambda>term4.
           (let temp = mpf_sub rd term1 term2;
                temp = mpf_sub rd temp term3;
                temp = mpf_sub rd temp term4
            in mpf_div rd temp power16))))))"

text \<open>The value of the \<open>k\<close>-th term of the series, as the comment above the function gives it.\<close>

definition bbp_term :: "nat \<Rightarrow> rat" where
  "bbp_term k =
     (1 / 16 ^ k) * (4 / of_nat (8 * k + 1) - 2 / of_nat (8 * k + 4)
                     - 1 / of_nat (8 * k + 5) - 1 / of_nat (8 * k + 6))"


subsection \<open>The stride partition and the local accumulator\<close>

text \<open>
  The loop \<^verbatim>\<open>for (int k = rank; k < num_terms; k += size)\<close> with its body as a parameter
  (\<open>nproc\<close> is the \<^verbatim>\<open>size\<close> of the source). With a stride \<open>nproc \<le> 0\<close> the index never
  reaches \<open>num_terms\<close> and the C loop does not come back (\<open>NoProgress\<close>);
  \<^verbatim>\<open>MPI_Comm_size\<close> always reports at least one process. After the body, \<^verbatim>\<open>k += size\<close>
  is an addition on \<^verbatim>\<open>int\<close>: with a positive stride it can leave the range only at
  the upper end.
\<close>

function stride_loop ::
  "(int \<Rightarrow> 'a \<Rightarrow> fault + 'a) \<Rightarrow> int \<Rightarrow> int \<Rightarrow> int \<Rightarrow> 'a \<Rightarrow> fault + 'a" where
  "stride_loop body nproc num_terms k acc =
     (if k < num_terms then
        (if nproc \<le> 0 then Inl NoProgress
         else bindF (body k acc)
                (\<lambda>acc'. if INT_MAX < k + nproc then Inl SignedOverflow
                       else stride_loop body nproc num_terms (k + nproc) acc'))
      else Inr acc)"
  by pat_completeness auto
termination
  by (relation "measure (\<lambda>(body, nproc, num_terms, k, acc). nat (num_terms - k))") auto

declare stride_loop.simps [simp del]

definition compute_local_sum :: "(rat \<Rightarrow> rat) \<Rightarrow> int \<Rightarrow> int \<Rightarrow> int \<Rightarrow> fault + mpf" where
  "compute_local_sum rd rank nproc num_terms =
     stride_loop
       (\<lambda>k local_sum. bindF (compute_bbp_term rd (word_of_int k))
                         (\<lambda>term_k. Inr (mpf_add rd local_sum term_k)))
       nproc num_terms rank (mpf_set_ui 0)"

text \<open>The term indices on which the loop of \<open>compute_local_sum\<close> runs its body, in order.\<close>

definition owned_terms :: "int \<Rightarrow> int \<Rightarrow> int \<Rightarrow> fault + int list" where
  "owned_terms rank nproc num_terms =
     stride_loop (\<lambda>k ks. Inr (ks @ [k])) nproc num_terms rank []"

subsection \<open>Decimal text: \<^verbatim>\<open>gmp_sprintf\<close> with \<^verbatim>\<open>%.*Ff\<close> and \<^verbatim>\<open>mpf_set_str\<close> in base 10\<close>

definition digit_char :: "nat \<Rightarrow> char" where
  "digit_char d = ''0123456789'' ! d"

function dec_digits :: "nat \<Rightarrow> string" where
  "dec_digits n = (if n < 10 then [digit_char n] else dec_digits (n div 10) @ [digit_char (n mod 10)])"
  by pat_completeness auto
termination
  by (relation "measure (\<lambda>n. n)") auto

declare dec_digits.simps [simp del]

fun frac_digits :: "nat \<Rightarrow> nat \<Rightarrow> string" where
  "frac_digits 0 f = []"
| "frac_digits (Suc p) f = frac_digits p (f div 10) @ [digit_char (f mod 10)]"

text \<open>
  The fixed-point conversion with \<open>p\<close> digits after the point: a minus sign for a negative
  value, the integer part without leading zeros, the point, and exactly \<open>p\<close> digits. The
  digits are those of \<open>rnd (\<bar>x\<bar> * 10 ^ p)\<close>, the magnitude in units of the last place as
  the library rounds it.
\<close>

definition gmp_sprintf_Ff :: "(rat \<Rightarrow> int) \<Rightarrow> nat \<Rightarrow> mpf \<Rightarrow> string" where
  "gmp_sprintf_Ff rnd p x =
     (let m = nat (rnd (\<bar>x\<bar> * 10 ^ p))
      in (if x < 0 then ''-'' else []) @ dec_digits (m div 10 ^ p)
         @ (if p = 0 then [] else ''.'' @ frac_digits p (m mod 10 ^ p)))"

text \<open>What is assumed of the rounding in the last printed place: it is off by less than one unit.\<close>

definition print_accurate :: "(rat \<Rightarrow> int) \<Rightarrow> bool" where
  "print_accurate rnd \<longleftrightarrow> (\<forall>y. 0 \<le> y \<longrightarrow> 0 \<le> rnd y \<and> \<bar>of_int (rnd y) - y\<bar> < 1)"

text \<open>Rounding to nearest, as \<^verbatim>\<open>printf\<close> does; and cutting the digits off.\<close>

definition round_nearest :: "rat \<Rightarrow> int" where
  "round_nearest y = \<lfloor>y + 1 / 2\<rfloor>"

definition round_down :: "rat \<Rightarrow> int" where
  "round_down y = \<lfloor>y\<rfloor>"

definition digit_val :: "char \<Rightarrow> nat option" where
  "digit_val c =
     (let n = (of_char c :: nat) in if 48 \<le> n \<and> n \<le> 57 then Some (n - 48) else None)"

fun parse_digits :: "string \<Rightarrow> nat \<Rightarrow> nat option" where
  "parse_digits [] acc = Some acc"
| "parse_digits (c # cs) acc =
     (case digit_val c of None \<Rightarrow> None | Some d \<Rightarrow> parse_digits cs (10 * acc + d))"

text \<open>
  \<^verbatim>\<open>mpf_set_str\<close> in base 10 on texts of the shape written by \<open>gmp_sprintf_Ff\<close>: an
  optional minus sign, digits, and optionally a point and digits. \<open>None\<close> is the return
  value -1 for a text that is not a number.
\<close>

definition mpf_set_str :: "(rat \<Rightarrow> rat) \<Rightarrow> string \<Rightarrow> mpf option" where
  "mpf_set_str rd s =
     (let neg = (s \<noteq> [] \<and> hd s = CHR ''-'');
          body = (if neg then tl s else s);
          ip = takeWhile (\<lambda>c. c \<noteq> CHR ''.'') body;
          fp = drop 1 (dropWhile (\<lambda>c. c \<noteq> CHR ''.'') body)
      in if ip = [] \<and> fp = [] then None
         else case (parse_digits ip 0, parse_digits fp 0) of
                (Some i, Some f) \<Rightarrow>
                  Some (rd ((if neg then - 1 else 1) * (of_nat i + of_nat f / 10 ^ length fp)))
              | _ \<Rightarrow> None)"

subsection \<open>Aggregation at the coordinator\<close>

text \<open>
  \<open>inbox src\<close> is the text that rank \<open>src\<close> sent, if it sent one. A receive from a rank
  that sends nothing never returns; a text that does not fit the buffer is an error of
  \<^verbatim>\<open>MPI_Recv\<close>. The return value of \<^verbatim>\<open>mpf_set_str\<close> is not looked at: after a failed
  conversion \<open>received_sum\<close> keeps its value.
\<close>

fun recv_all ::
  "(rat \<Rightarrow> rat) \<Rightarrow> (int \<Rightarrow> string option) \<Rightarrow> nat \<Rightarrow> int list \<Rightarrow> mpf \<times> mpf \<Rightarrow> fault + mpf \<times> mpf" where
  "recv_all rd inbox buffer_size [] st = Inr st"
| "recv_all rd inbox buffer_size (src # srcs) (pi_acc, received_sum) =
     (case inbox src of
        None \<Rightarrow> Inl NoProgress
      | Some buffer \<Rightarrow>
          if buffer_size < length buffer + 1 then Inl BufferOverrun
          else (let received_sum = (case mpf_set_str rd buffer of
                                      None \<Rightarrow> received_sum | Some v \<Rightarrow> v);
                    pi_acc = mpf_add rd pi_acc received_sum
                in recv_all rd inbox buffer_size srcs (pi_acc, received_sum)))"

text \<open>
  The result is the value of \<^verbatim>\<open>pi\<close> after the call and the text sent, if any. A text longer
  than the buffer is a write past its end.
\<close>

definition aggregate_results ::
  "(rat \<Rightarrow> rat) \<Rightarrow> (rat \<Rightarrow> int) \<Rightarrow> (int \<Rightarrow> string option) \<Rightarrow> mpf \<Rightarrow> mpf \<Rightarrow> int \<Rightarrow> int \<Rightarrow> int
     \<Rightarrow> fault + mpf \<times> string option" where
  "aggregate_results rd rnd inbox pi_acc local_sum rank nproc digits =
     bindF (int_add digits 100) (\<lambda>size_sum.
       (let buffer_size = nat size_sum
        in if rank = 0 then
             bindF (recv_all rd inbox buffer_size [1..nproc - 1] (local_sum, 0))
               (\<lambda>(pi_acc, received_sum). Inr (pi_acc, None))
           else
             bindF (int_add digits 20) (\<lambda>precision.
               (let buffer = gmp_sprintf_Ff rnd (nat precision) local_sum
                in if buffer_size < length buffer + 1 then Inl BufferOverrun
                   else Inr (pi_acc, Some buffer)))))"

subsection \<open>The digit renderer\<close>

function print_loop :: "string \<Rightarrow> int \<Rightarrow> int \<Rightarrow> string" where
  "print_loop decimal_part len i =
     (if i < len then
        [decimal_part ! nat i]
        @ (if (i + 1) mod 10 = 0 \<and> i + 1 < len
           then '' '' @ (if (i + 1) mod 50 = 0 then [CHR 0x0A] @ ''  '' else [])
           else [])
        @ print_loop decimal_part len (i + 1)
      else [])"
  by pat_completeness auto
termination
  by (relation "measure (\<lambda>(decimal_part, len, i). nat (len - i))") auto

declare print_loop.simps [simp del]

text \<open>
  The characters written after the heading line: \<^verbatim>\<open>3.\<close>, the digits with their
  separators, and the final line break.
\<close>

definition print_pi :: "(rat \<Rightarrow> rat) \<Rightarrow> (rat \<Rightarrow> int) \<Rightarrow> mpf \<Rightarrow> int \<Rightarrow> fault + string" where
  "print_pi rd rnd pi_acc digits =
     (let frac = mpf_sub_ui rd pi_acc 3
      in bindF (int_add digits 100) (\<lambda>size_sum.
           (let str = gmp_sprintf_Ff rnd (nat digits) frac
            in if nat size_sum < length str + 1 then Inl BufferOverrun
               else (let decimal_part = drop 2 str;
                         len = int (length decimal_part);
                         len = (if len > digits then digits else len)
                     in Inr (''3.'' @ print_loop decimal_part len 0 @ [CHR 0x0A])))))"


subsection \<open>One process, and the group\<close>

text \<open>
  What one process leaves behind: the value \<^verbatim>\<open>main\<close> returns, the number of usage
  messages it wrote to the error stream, its partial sum (if \<open>compute_local_sum\<close> ran),
  the text it sent, and for the coordinator the final result and the digits it printed.
  \<open>arg\<close> is \<^verbatim>\<open>atoi(argv[1])\<close> when an argument is given; \<open>trunc prec\<close> is the truncation
  of floats once \<^verbatim>\<open>mpf_set_default_prec(prec)\<close> has run.
\<close>

record process_exit =
  status :: int
  usage_lines :: nat
  partial_sum :: "mpf option"
  sent :: "string option"
  final_result :: "mpf option"
  rendered :: "string option"

definition main ::
  "(nat \<Rightarrow> rat \<Rightarrow> rat) \<Rightarrow> (rat \<Rightarrow> int) \<Rightarrow> (int \<Rightarrow> string option) \<Rightarrow> int \<Rightarrow> int \<Rightarrow> int option
     \<Rightarrow> fault + process_exit" where
  "main trunc rnd inbox rank nproc arg =
     (let digits = (case arg of None \<Rightarrow> 100 | Some d \<Rightarrow> d)
      in if arg \<noteq> None \<and> digits < 1 then
           Inr \<lparr>status = 1, usage_lines = (if rank = 0 then 1 else 0), partial_sum = None,
                sent = None, final_result = None, rendered = None\<rparr>
         else
           (let precision = calculate_precision digits;
                rd = trunc precision
            in bindF (calculate_num_terms digits) (\<lambda>num_terms.
               bindF (compute_local_sum rd rank nproc num_terms) (\<lambda>local_sum.
               bindF (aggregate_results rd rnd inbox 0 local_sum rank nproc digits) (\<lambda>(pi_acc, text).
               bindF (if rank = 0 then bindF (print_pi rd rnd pi_acc digits) (\<lambda>out. Inr (Some out))
                      else Inr None) (\<lambda>out.
                 Inr \<lparr>status = 0, usage_lines = 0, partial_sum = Some local_sum, sent = text,
                      final_result = (if rank = 0 then Some pi_acc else None),
                      rendered = out\<rparr>))))))"

text \<open>
  The group of \<open>nproc\<close> processes started on the same argument. Element \<open>i\<close> of the
  result is what rank \<open>i\<close> leaves behind; the coordinator receives what the others sent.
\<close>

definition mpirun ::
  "(nat \<Rightarrow> rat \<Rightarrow> rat) \<Rightarrow> (rat \<Rightarrow> int) \<Rightarrow> int \<Rightarrow> int option \<Rightarrow> (fault + process_exit) list" where
  "mpirun trunc rnd nproc arg =
     (let workers = map (\<lambda>rank. main trunc rnd (\<lambda>src. None) rank nproc arg) [1..nproc - 1];
          inbox = (\<lambda>src. if 1 \<le> src \<and> src < nproc
                          then (case workers ! nat (src - 1) of Inl e \<Rightarrow> None | Inr r \<Rightarrow> sent r)
                          else None)
      in main trunc rnd inbox 0 nproc arg # workers)"

subsection \<open>The midpoint-rule estimator of \<^verbatim>\<open>pi_mpi.c\<close>, in exact arithmetic\<close>

definition c_div :: "int \<Rightarrow> int \<Rightarrow> int" where
  "c_div a b = sgn a * sgn b * (\<bar>a\<bar> div \<bar>b\<bar>)"

definition local_range :: "int \<Rightarrow> int \<Rightarrow> int \<Rightarrow> int \<times> int" where
  "local_range n nproc rank =
     (let local_start = c_div n nproc * rank;
          local_end = c_div n nproc * (rank + 1);
          local_end = (if rank = nproc - 1 then n else local_end)
      in (local_start, local_end))"

function midpoint_loop :: "rat \<Rightarrow> int \<Rightarrow> int \<Rightarrow> rat \<Rightarrow> rat" where
  "midpoint_loop h i local_end local_sum =
     (if i < local_end then
        (let x = (of_int i + 5 / 10) * h
         in midpoint_loop h (i + 1) local_end (local_sum + 4 / (1 + x * x)))
      else local_sum)"
  by pat_completeness auto
termination
  by (relation "measure (\<lambda>(h, i, local_end, local_sum). nat (local_end - i))") auto

declare midpoint_loop.simps [simp del]

definition pi_mpi_local :: "int \<Rightarrow> int \<Rightarrow> int \<Rightarrow> rat" where
  "pi_mpi_local n nproc rank =
     (let h = 1 / of_int n;
          (local_start, local_end) = local_range n nproc rank
      in midpoint_loop h local_start local_end 0 * h)"

text \<open>\<^verbatim>\<open>MPI_Reduce\<close> with \<^verbatim>\<open>MPI_SUM\<close>: the sum of the contributions of ranks \<open>0\<close> to \<open>nproc - 1\<close>.\<close>

definition pi_mpi :: "int \<Rightarrow> int \<Rightarrow> rat" where
  "pi_mpi n nproc = sum_list (map (pi_mpi_local n nproc) [0..nproc - 1])"

definition n_intervals :: int where
  "n_intervals = 1000000000"

section \<open>Auxiliary notions for the statements\<close>

text \<open>The indices \<open>k, k + nproc, k + 2 * nproc, \<dots>\<close> below \<open>num_terms\<close>.\<close>

function stride_indices :: "int \<Rightarrow> int \<Rightarrow> int \<Rightarrow> int list" where
  "stride_indices nproc num_terms k =
     (if k < num_terms \<and> 0 < nproc then k # stride_indices nproc num_terms (k + nproc) else [])"
  by pat_completeness auto
termination
  by (relation "measure (\<lambda>(nproc, num_terms, k). nat (num_terms - k))") auto

declare stride_indices.simps [simp del]

text \<open>A loop body run on a list of indices, stopping at the first fault.\<close>

fun run_body :: "(int \<Rightarrow> 'a \<Rightarrow> fault + 'a) \<Rightarrow> int list \<Rightarrow> 'a \<Rightarrow> fault + 'a" where
  "run_body body [] acc = Inr acc"
| "run_body body (k # ks) acc = bindF (body k acc) (run_body body ks)"

text \<open>The set of term indices a rank owns.\<close>

definition owned_set :: "int \<Rightarrow> int \<Rightarrow> int \<Rightarrow> int set" where
  "owned_set rank nproc num_terms =
     (case owned_terms rank nproc num_terms of Inl e \<Rightarrow> {} | Inr ks \<Rightarrow> set ks)"

text \<open>The body of the loop of \<open>compute_local_sum\<close>, and the exact sum of the terms of a list.\<close>

definition sum_body :: "(rat \<Rightarrow> rat) \<Rightarrow> int \<Rightarrow> mpf \<Rightarrow> fault + mpf" where
  "sum_body rd = (\<lambda>k local_sum. bindF (compute_bbp_term rd (word_of_int k))
                         (\<lambda>term_k. Inr (mpf_add rd local_sum term_k)))"

definition exact_sum :: "int list \<Rightarrow> rat" where
  "exact_sum ks = (\<Sum>k\<leftarrow>ks. bbp_term (nat k))"

definition weight_sum :: "int list \<Rightarrow> rat" where
  "weight_sum ks = (\<Sum>k\<leftarrow>ks. 1 / 16 ^ nat k)"

definition bbp_bracket :: "nat \<Rightarrow> rat" where
  "bbp_bracket n = 4 / of_nat (8 * n + 1) - 2 / of_nat (8 * n + 4)
                     - 1 / of_nat (8 * n + 5) - 1 / of_nat (8 * n + 6)"

text \<open>A truncation that loses at most the fraction \<open>e\<close> of a value, with \<open>e \<le> 1 / 2\<close>.\<close>

definition rel_acc :: "rat \<Rightarrow> (rat \<Rightarrow> rat) \<Rightarrow> bool" where
  "rel_acc e rd \<longleftrightarrow> 0 \<le> e \<and> e \<le> 1 / 2 \<and> (\<forall>x. \<bar>rd x - x\<bar> \<le> e * \<bar>x\<bar>)"

text \<open>The interval of the estimator that a rank integrates, and the value at a midpoint.\<close>

definition range_set :: "int \<Rightarrow> int \<Rightarrow> int \<Rightarrow> int set" where
  "range_set n nproc rank = {fst (local_range n nproc rank)..<snd (local_range n nproc rank)}"

definition midpoint_value :: "rat \<Rightarrow> int \<Rightarrow> rat" where
  "midpoint_value h i = 4 / (1 + ((of_int i + 5 / 10) * h) * ((of_int i + 5 / 10) * h))"

definition block_bound :: "int \<Rightarrow> int \<Rightarrow> int \<Rightarrow> int" where
  "block_bound n nproc r = (if r = nproc then n else (n div nproc) * r)"

text \<open>Arithmetic without rounding: the float keeps every digit.\<close>

definition exact :: "rat \<Rightarrow> rat" where
  "exact x = x"

definition exact_at :: "nat \<Rightarrow> rat \<Rightarrow> rat" where
  "exact_at prec = exact"

text \<open>The characters \<open>0\<close> to \<open>9\<close>.\<close>

definition is_digit :: "char \<Rightarrow> bool" where
  "is_digit c \<longleftrightarrow> (\<exists>d<10. c = digit_char d)"

text \<open>The inbox of a process that receives nothing.\<close>

definition empty_inbox :: "int \<Rightarrow> string option" where
  "empty_inbox src = None"






section \<open>The term evaluator\<close>

subsection \<open>The divisors\<close>

lemma stride8_nonzero:
  fixes k :: ulong
  assumes "c = 1 \<or> c = 4 \<or> c = 5 \<or> c = 6"
  shows "8 * k + word_of_int c \<noteq> 0"
proof
  assume "8 * k + word_of_int c = 0"
  then have "uint (8 * k + word_of_int c) = 0" by simp
  then have "(8 * uint k + c) mod 2 ^ 64 = 0"
    using assms by (auto simp add: uint_word_ariths mod_simps)
  then have "(2::int) ^ 64 dvd 8 * uint k + c" by (simp add: dvd_eq_mod_eq_0)
  moreover have "(8::int) dvd 2 ^ 64" by simp
  ultimately have "(8::int) dvd 8 * uint k + c" by (rule dvd_trans[rotated])
  then show False using assms by presburger
qed

lemma stride8_residue:
  fixes k :: ulong
  assumes "c = 1 \<or> c = 4 \<or> c = 5 \<or> c = 6"
  shows "unat (8 * k + of_nat c) mod 8 = c"
proof -
  have "unat (8 * k + of_nat c) = (8 * unat k + c) mod 2 ^ 64"
    using assms by (auto simp add: unat_word_ariths mod_simps)
  moreover have "(8::nat) dvd 2 ^ 64" by simp
  ultimately have "unat (8 * k + of_nat c) mod 8 = (8 * unat k + c) mod 8"
    by (simp add: mod_mod_cancel)
  then show ?thesis using assms by auto
qed

lemma divisors_nonzero:
  fixes k :: ulong
  shows "8 * k + 1 \<noteq> 0" "8 * k + 4 \<noteq> 0" "8 * k + 5 \<noteq> 0" "8 * k + 6 \<noteq> 0"
  using stride8_nonzero[of 1 k] stride8_nonzero[of 4 k] stride8_nonzero[of 5 k]
    stride8_nonzero[of 6 k] by simp_all

lemma divisors_exact:
  fixes k :: ulong
  assumes "unat k < 2 ^ 61"
  shows "unat (8 * k + 1) = 8 * unat k + 1" "unat (8 * k + 4) = 8 * unat k + 4"
    "unat (8 * k + 5) = 8 * unat k + 5" "unat (8 * k + 6) = 8 * unat k + 6"
  using assms by (simp_all add: unat_word_ariths)

lemma compute_bbp_term_unfold:
  "compute_bbp_term rd k =
     (if rd (16 ^ unat k) = 0 then Inl DivideByZero
      else Inr (rd (rd (rd (rd (rd (4 / of_nat (unat (8 * k + 1)))
                   - rd (2 / of_nat (unat (8 * k + 4))))
                   - rd (1 / of_nat (unat (8 * k + 5))))
                   - rd (1 / of_nat (unat (8 * k + 6)))) / rd (16 ^ unat k))))"
  by (simp add: compute_bbp_term_def bindF_def mpf_div_ui_def mpf_div_def mpf_sub_def
      mpf_pow_ui_def mpf_set_ui_def divisors_nonzero Let_def)

lemma compute_bbp_term_exact:
  assumes "unat k < 2 ^ 61"
  shows "compute_bbp_term exact k = Inr (bbp_term (unat k))"
  using assms by (simp add: compute_bbp_term_unfold divisors_exact bbp_term_def exact_def)

lemma bbp_term_wrap:
  assumes "8 * k = (0::ulong)"
  shows "compute_bbp_term exact k = Inr ((47 / 15) / 16 ^ unat k)"
  using assms by (simp add: compute_bbp_term_unfold exact_def)

lemma bbp_term_upper:
  assumes "1 \<le> n"
  shows "bbp_term n < (47 / 15) / 16 ^ n"
proof -
  have "4 / (of_nat (8 * n + 1) :: rat) \<le> 4 / 9"
    using assms by (intro divide_left_mono) auto
  moreover have "0 < 2 / (of_nat (8 * n + 4) :: rat)" "0 < 1 / (of_nat (8 * n + 5) :: rat)"
    "0 < 1 / (of_nat (8 * n + 6) :: rat)" by simp_all
  ultimately have "4 / of_nat (8 * n + 1) - 2 / of_nat (8 * n + 4)
                     - 1 / of_nat (8 * n + 5) - 1 / (of_nat (8 * n + 6) :: rat) < 47 / 15"
    by linarith
  then have "(4 / of_nat (8 * n + 1) - 2 / of_nat (8 * n + 4)
                     - 1 / of_nat (8 * n + 5) - 1 / (of_nat (8 * n + 6) :: rat)) / 16 ^ n < (47 / 15) / 16 ^ n"
    by (intro divide_strict_right_mono) auto
  then show ?thesis by (simp add: bbp_term_def)
qed

lemma wrap_differs:
  assumes "8 * k = (0::ulong)" "1 \<le> unat k"
  shows "compute_bbp_term exact k \<noteq> Inr (bbp_term (unat k))"
  using bbp_term_wrap[OF assms(1)] bbp_term_upper[OF assms(2)] by simp


subsection \<open>Rounding errors\<close>

lemma exact_accurate: "mpf_accurate prec exact"
  by (simp add: mpf_accurate_def exact_def)

lemma mpf_accurate_rel_acc:
  assumes "mpf_accurate prec rd" "2 \<le> prec"
  shows "rel_acc (1 / 2 ^ (prec - 1)) rd"
proof -
  have "(2::rat) ^ 1 \<le> 2 ^ (prec - 1)"
    using assms(2) by (intro power_increasing) auto
  then have "1 / (2::rat) ^ (prec - 1) \<le> 1 / 2"
    by (intro divide_left_mono) auto
  then show ?thesis using assms(1) by (simp add: rel_acc_def mpf_accurate_def)
qed

lemma rel_acc_err: "rel_acc e rd \<Longrightarrow> \<bar>rd x - x\<bar> \<le> e * \<bar>x\<bar>"
  by (simp add: rel_acc_def)

lemma rd_near:
  assumes "rel_acc e rd" "\<bar>u - U\<bar> \<le> d" "\<bar>U\<bar> \<le> M"
  shows "\<bar>rd u - U\<bar> \<le> (3 / 2) * d + M * e"
proof -
  have e: "0 \<le> e" "e \<le> 1 / 2" using assms(1) by (simp_all add: rel_acc_def)
  have d0: "0 \<le> d" using assms(2) by linarith
  have "\<bar>u\<bar> \<le> M + d" using assms(2,3) by linarith
  then have "e * \<bar>u\<bar> \<le> e * (M + d)" using e by (intro mult_left_mono) auto
  moreover have "e * d \<le> (1 / 2) * d" using e d0 by (intro mult_right_mono) auto
  moreover have "\<bar>rd u - u\<bar> \<le> e * \<bar>u\<bar>" using assms(1) by (rule rel_acc_err)
  ultimately have "\<bar>rd u - u\<bar> \<le> M * e + (1 / 2) * d" by (simp add: algebra_simps)
  then show ?thesis using assms(2) by linarith
qed

lemma rd_exact_near:
  assumes "rel_acc e rd" "0 \<le> a" "a \<le> M"
  shows "\<bar>rd a - a\<bar> \<le> M * e"
proof -
  have "\<bar>rd a - a\<bar> \<le> e * \<bar>a\<bar>" using assms(1) by (rule rel_acc_err)
  also have "\<dots> \<le> e * M" using assms by (intro mult_left_mono) (auto simp: rel_acc_def)
  finally show ?thesis by (simp add: mult.commute)
qed

lemma bbp_fractions:
  "0 < 4 / (of_nat (8 * n + 1) :: rat)" "4 / (of_nat (8 * n + 1) :: rat) \<le> 4"
  "0 < 2 / (of_nat (8 * n + 4) :: rat)" "2 / (of_nat (8 * n + 4) :: rat) \<le> 1 / 2"
  "0 < 1 / (of_nat (8 * n + 5) :: rat)" "1 / (of_nat (8 * n + 5) :: rat) \<le> 1 / 5"
  "0 < 1 / (of_nat (8 * n + 6) :: rat)" "1 / (of_nat (8 * n + 6) :: rat) \<le> 1 / 6"
proof -
  have "4 / (of_nat (8 * n + 1) :: rat) \<le> 4 / 1" by (intro divide_left_mono) auto
  then show "4 / (of_nat (8 * n + 1) :: rat) \<le> 4" by simp
  have "2 / (of_nat (8 * n + 4) :: rat) \<le> 2 / 4" by (intro divide_left_mono) auto
  then show "2 / (of_nat (8 * n + 4) :: rat) \<le> 1 / 2" by simp
  show "1 / (of_nat (8 * n + 5) :: rat) \<le> 1 / 5" by (intro divide_left_mono) auto
  show "1 / (of_nat (8 * n + 6) :: rat) \<le> 1 / 6" by (intro divide_left_mono) auto
qed simp_all

lemma bracket_rounded:
  assumes acc: "rel_acc e rd"
    and b: "0 \<le> a1" "a1 \<le> 4" "0 \<le> a2" "a2 \<le> 1 / 2" "0 \<le> a3" "a3 \<le> 1 / 5"
      "0 \<le> a4" "a4 \<le> 1 / 6"
  shows "\<bar>rd (rd (rd (rd a1 - rd a2) - rd a3) - rd a4) - (a1 - a2 - a3 - a4)\<bar> \<le> 35 * e"
proof -
  have e0: "0 \<le> e" using acc by (simp add: rel_acc_def)
  have t1: "\<bar>rd a1 - a1\<bar> \<le> 4 * e" using acc b by (intro rd_exact_near) auto
  have t2: "\<bar>rd a2 - a2\<bar> \<le> (1 / 2) * e" using acc b by (intro rd_exact_near) auto
  have t3: "\<bar>rd a3 - a3\<bar> \<le> (1 / 5) * e" using acc b by (intro rd_exact_near) auto
  have t4: "\<bar>rd a4 - a4\<bar> \<le> (1 / 6) * e" using acc b by (intro rd_exact_near) auto
  have "\<bar>(rd a1 - rd a2) - (a1 - a2)\<bar> \<le> (9 / 2) * e" using t1 t2 by linarith
  moreover have "\<bar>a1 - a2\<bar> \<le> 4" using b by linarith
  ultimately have "\<bar>rd (rd a1 - rd a2) - (a1 - a2)\<bar> \<le> (3 / 2) * ((9 / 2) * e) + 4 * e"
    by (rule rd_near[OF acc])
  then have s1: "\<bar>rd (rd a1 - rd a2) - (a1 - a2)\<bar> \<le> (43 / 4) * e" by simp
  have "\<bar>(rd (rd a1 - rd a2) - rd a3) - (a1 - a2 - a3)\<bar> \<le> (219 / 20) * e" using s1 t3 by linarith
  moreover have "\<bar>a1 - a2 - a3\<bar> \<le> 4" using b by linarith
  ultimately have "\<bar>rd (rd (rd a1 - rd a2) - rd a3) - (a1 - a2 - a3)\<bar>
                     \<le> (3 / 2) * ((219 / 20) * e) + 4 * e"
    by (rule rd_near[OF acc])
  then have s2: "\<bar>rd (rd (rd a1 - rd a2) - rd a3) - (a1 - a2 - a3)\<bar> \<le> (817 / 40) * e" by simp
  have "\<bar>(rd (rd (rd a1 - rd a2) - rd a3) - rd a4) - (a1 - a2 - a3 - a4)\<bar> \<le> (2471 / 120) * e"
    using s2 t4 by linarith
  moreover have m: "\<bar>a1 - a2 - a3 - a4\<bar> \<le> 4" using b by linarith
  ultimately have "\<bar>rd (rd (rd (rd a1 - rd a2) - rd a3) - rd a4) - (a1 - a2 - a3 - a4)\<bar>
                     \<le> (3 / 2) * ((2471 / 120) * e) + 4 * e"
    by (rule rd_near[OF acc])
  then show ?thesis using e0 by simp
qed

lemma quotient_rounded:
  assumes acc: "rel_acc e rd" and s: "\<bar>s - B\<bar> \<le> 35 * e" and B: "\<bar>B\<bar> \<le> 4" and P: "0 < P"
  shows "rd P \<noteq> 0" and "\<bar>rd (s / rd P) - B / P\<bar> \<le> 121 * e / P"
proof -
  have e: "0 \<le> e" "e \<le> 1 / 2" using acc by (simp_all add: rel_acc_def)
  define p where "p = rd P"
  have pP: "\<bar>p - P\<bar> \<le> e * P" using rel_acc_err[OF acc, of P] P by (simp add: p_def)
  have "e * P \<le> (1 / 2) * P" using e P by (intro mult_right_mono) auto
  then have half: "P / 2 \<le> p" using pP by linarith
  then have p0: "0 < p" using P by linarith
  then show "rd P \<noteq> 0" by (simp add: p_def)
  have "s / p - B / P = ((s - B) * P - B * (p - P)) / (p * P)"
    using p0 P by (simp add: field_simps)
  then have "\<bar>s / p - B / P\<bar> = \<bar>(s - B) * P - B * (p - P)\<bar> / (p * P)"
    using p0 P by (simp add: abs_mult)
  also have "\<dots> \<le> (39 * e * P) / (p * P)"
  proof (intro divide_right_mono)
    have "\<bar>(s - B) * P\<bar> \<le> (35 * e) * P"
      using s P by (simp add: abs_mult)
    moreover have "\<bar>B * (p - P)\<bar> \<le> 4 * (e * P)"
      unfolding abs_mult using B pP by (intro mult_mono) auto
    ultimately show "\<bar>(s - B) * P - B * (p - P)\<bar> \<le> 39 * e * P" by linarith
    show "0 \<le> p * P" using p0 P by simp
  qed
  also have "\<dots> = 39 * e / p" using P by simp
  also have "\<dots> \<le> 39 * e / (P / 2)"
    using half P e by (intro divide_left_mono mult_pos_pos mult_nonneg_nonneg) auto
  finally have q: "\<bar>s / p - B / P\<bar> \<le> 78 * e / P" by simp
  have "\<bar>B / P\<bar> \<le> 4 / P" using B P by (simp add: divide_right_mono)
  with q have "\<bar>rd (s / p) - B / P\<bar> \<le> (3 / 2) * (78 * e / P) + (4 / P) * e"
    by (rule rd_near[OF acc])
  then show "\<bar>rd (s / rd P) - B / P\<bar> \<le> 121 * e / P"
    by (simp add: p_def)
qed


lemma rd_near2:
  assumes "rel_acc e rd" "\<bar>u - U\<bar> \<le> d" "\<bar>U\<bar> \<le> M"
  shows "\<bar>rd u - U\<bar> \<le> (1 + e) * d + M * e"
proof -
  have e: "0 \<le> e" using assms(1) by (simp add: rel_acc_def)
  have "\<bar>u\<bar> \<le> M + d" using assms(2,3) by linarith
  then have "e * \<bar>u\<bar> \<le> e * (M + d)" using e by (intro mult_left_mono) auto
  moreover have "\<bar>rd u - u\<bar> \<le> e * \<bar>u\<bar>" using assms(1) by (rule rel_acc_err)
  ultimately have "\<bar>rd u - u\<bar> \<le> M * e + e * d" by (simp add: algebra_simps)
  then show ?thesis using assms(2) by (simp add: algebra_simps)
qed

lemma bbp_term_bracket: "bbp_term n = bbp_bracket n / 16 ^ n"
  by (simp add: bbp_term_def bbp_bracket_def)

lemma bbp_bracket_abs: "\<bar>bbp_bracket n\<bar> \<le> 4"
  using bbp_fractions[of n] unfolding bbp_bracket_def by linarith

lemma bbp_term_abs: "\<bar>bbp_term n\<bar> \<le> 4 / 16 ^ n"
  using bbp_bracket_abs[of n] by (simp add: bbp_term_bracket divide_right_mono)

lemma compute_bbp_term_error:
  assumes acc: "rel_acc e rd" and k: "unat k < 2 ^ 61"
  shows "\<exists>t. compute_bbp_term rd k = Inr t \<and> \<bar>t - bbp_term (unat k)\<bar> \<le> 121 * e / 16 ^ unat k"
proof -
  define n where "n = unat k"
  define s where "s = rd (rd (rd (rd (4 / of_nat (8 * n + 1)) - rd (2 / of_nat (8 * n + 4)))
                       - rd (1 / of_nat (8 * n + 5))) - rd (1 / of_nat (8 * n + 6)))"
  have f: "0 \<le> 4 / (of_nat (8 * n + 1) :: rat)" "0 \<le> 2 / (of_nat (8 * n + 4) :: rat)"
    "0 \<le> 1 / (of_nat (8 * n + 5) :: rat)" "0 \<le> 1 / (of_nat (8 * n + 6) :: rat)"
    by simp_all
  have sB: "\<bar>s - bbp_bracket n\<bar> \<le> 35 * e"
    unfolding s_def bbp_bracket_def
    by (rule bracket_rounded[OF acc f(1) bbp_fractions(2) f(2) bbp_fractions(4)
          f(3) bbp_fractions(6) f(4) bbp_fractions(8)])
  have P: "(0::rat) < 16 ^ n" by simp
  note q = quotient_rounded[OF acc sB bbp_bracket_abs P]
  have "compute_bbp_term rd k = Inr (rd (s / rd (16 ^ n)))"
    using q(1) k by (simp add: compute_bbp_term_unfold divisors_exact s_def n_def)
  then show ?thesis using q(2) by (simp add: bbp_term_bracket n_def)
qed

lemma compute_bbp_term_no_fault:
  assumes acc: "rel_acc e rd"
  shows "\<exists>t. compute_bbp_term rd k = Inr t"
proof -
  have "(16::rat) ^ unat k \<noteq> 0" by simp
  have "\<bar>rd (16 ^ unat k) - 16 ^ unat k\<bar> \<le> e * \<bar>16 ^ unat k\<bar>" by (rule rel_acc_err[OF acc])
  moreover have "e * \<bar>(16::rat) ^ unat k\<bar> \<le> (1 / 2) * \<bar>16 ^ unat k\<bar>"
    using acc by (intro mult_right_mono) (auto simp: rel_acc_def)
  ultimately have "rd (16 ^ unat k) \<noteq> 0" by auto
  then show ?thesis by (simp add: compute_bbp_term_unfold)
qed


subsection \<open>The claims about the term evaluator\<close>

text \<open>
  Claim C9. For every \<^verbatim>\<open>unsigned long\<close> \<open>k\<close>, also where \<open>8 * k\<close> wraps around modulo
  \<open>2 ^ 64\<close>, the four divisors \<open>k8 + 1\<close>, \<open>k8 + 4\<close>, \<open>k8 + 5\<close>, \<open>k8 + 6\<close> computed from
  \<open>k8 = 8 * k\<close> are not zero: they are 1, 4, 5 and 6 modulo 8. So no call of
  \<open>mpf_div_ui\<close> in the term evaluator gets a zero divisor.
\<close>

theorem divisors_never_zero:
  fixes k :: ulong
  shows "8 * k + 1 \<noteq> 0 \<and> 8 * k + 4 \<noteq> 0 \<and> 8 * k + 5 \<noteq> 0 \<and> 8 * k + 6 \<noteq> 0
       \<and> unat (8 * k + 1) mod 8 = 1 \<and> unat (8 * k + 4) mod 8 = 4
       \<and> unat (8 * k + 5) mod 8 = 5 \<and> unat (8 * k + 6) mod 8 = 6
       \<and> mpf_div_ui rd (mpf_set_ui 4) (8 * k + 1) = Inr (rd (4 / of_nat (unat (8 * k + 1))))
       \<and> mpf_div_ui rd (mpf_set_ui 2) (8 * k + 4) = Inr (rd (2 / of_nat (unat (8 * k + 4))))
       \<and> mpf_div_ui rd (mpf_set_ui 1) (8 * k + 5) = Inr (rd (1 / of_nat (unat (8 * k + 5))))
       \<and> mpf_div_ui rd (mpf_set_ui 1) (8 * k + 6) = Inr (rd (1 / of_nat (unat (8 * k + 6))))"
  using stride8_residue[of 1 k] stride8_residue[of 4 k] stride8_residue[of 5 k]
    stride8_residue[of 6 k]
  by (simp add: divisors_nonzero mpf_div_ui_def mpf_set_ui_def)

text \<open>
  Claim C3, as amended. For every \<open>k\<close> with \<open>8 * k + 6 < 2 ^ 64\<close> (every index that the
  accumulator passes is one), the term evaluator computes the value
  \<open>(1 / 16 ^ k) * (4 / (8 * k + 1) - 2 / (8 * k + 4) - 1 / (8 * k + 5) - 1 / (8 * k + 6))\<close>:
  exactly when the arithmetic is exact, and at a working precision of \<open>prec\<close> bits with an
  error of at most \<open>121 / 2 ^ (prec - 1) / 16 ^ k\<close>. For every \<^verbatim>\<open>unsigned long\<close> \<open>k\<close> the
  evaluator returns a value: no division by zero is reachable.
\<close>

theorem term_evaluator_value:
  assumes "unat k < 2 ^ 61" and "mpf_accurate prec rd" and "2 \<le> prec"
  shows "compute_bbp_term exact k = Inr (bbp_term (unat k))
       \<and> (\<exists>t. compute_bbp_term rd k = Inr t
               \<and> \<bar>t - bbp_term (unat k)\<bar> \<le> 121 / 2 ^ (prec - 1) / 16 ^ unat k)
       \<and> (\<forall>k'. \<exists>t. compute_bbp_term rd k' = Inr t)"
proof -
  have acc: "rel_acc (1 / 2 ^ (prec - 1)) rd"
    using assms(2,3) by (rule mpf_accurate_rel_acc)
  from compute_bbp_term_error[OF acc assms(1)]
  have "\<exists>t. compute_bbp_term rd k = Inr t
             \<and> \<bar>t - bbp_term (unat k)\<bar> \<le> 121 / 2 ^ (prec - 1) / 16 ^ unat k"
    by simp
  moreover have "\<forall>k'. \<exists>t. compute_bbp_term rd k' = Inr t"
    using compute_bbp_term_no_fault[OF acc] by blast
  ultimately show ?thesis using compute_bbp_term_exact[OF assms(1)] by blast
qed

theorem term_evaluator_value_witness:
  "unat (3 :: ulong) < 2 ^ 61 \<and> mpf_accurate 64 exact \<and> (2::nat) \<le> 64
   \<and> compute_bbp_term exact 3 = Inr (bbp_term (unat (3 :: ulong)))
   \<and> bbp_term (unat (3 :: ulong)) = 79 / 15590400"
  using term_evaluator_value[of 3 64 exact]
  by (simp add: exact_accurate bbp_term_def)

text \<open>
  Claim C3 as it is written, for every non-negative \<open>k\<close>, fails where \<open>8 * k\<close> wraps around:
  for \<open>k = 2 ^ 61\<close> the divisors are 1, 4, 5 and 6, not \<open>8 * k + 1\<close>, \<dots>, and the result
  is not the value of the term.
\<close>

theorem term_evaluator_wraps:
  "compute_bbp_term exact (2 ^ 61) \<noteq> Inr (bbp_term (unat (2 ^ 61 :: ulong)))"
proof (rule wrap_differs)
  show "8 * (2 ^ 61 :: ulong) = 0" by simp
  show "1 \<le> unat (2 ^ 61 :: ulong)" by simp
qed

section \<open>The stride partition\<close>

lemma set_stride_indices:
  assumes "0 < nproc"
  shows "set (stride_indices nproc num_terms k) =
           {j. k \<le> j \<and> j < num_terms \<and> nproc dvd (j - k)}"
  using assms
proof (induction nproc num_terms k rule: stride_indices.induct)
  case (1 nproc num_terms k)
  show ?case
  proof (cases "k < num_terms")
    case True
    have step: "stride_indices nproc num_terms k = k # stride_indices nproc num_terms (k + nproc)"
      using True "1.prems" by (subst stride_indices.simps) simp
    have ih: "set (stride_indices nproc num_terms (k + nproc)) =
                {j. k + nproc \<le> j \<and> j < num_terms \<and> nproc dvd (j - (k + nproc))}"
      using "1.IH" True "1.prems" by simp
    have "{j. k \<le> j \<and> j < num_terms \<and> nproc dvd (j - k)} =
            insert k {j. k + nproc \<le> j \<and> j < num_terms \<and> nproc dvd (j - (k + nproc))}"
      (is "?L = insert k ?R")
    proof (intro set_eqI iffI)
      fix j assume "j \<in> ?L"
      then have j: "k \<le> j" "j < num_terms" "nproc dvd (j - k)" by auto
      show "j \<in> insert k ?R"
      proof (cases "j = k")
        case False
        with j have pos: "0 < j - k" by simp
        from j(3) obtain q where q: "j - k = nproc * q" by (auto simp: dvd_def)
        with pos "1.prems" have "0 < q" by (simp add: zero_less_mult_iff)
        then have "nproc * 1 \<le> nproc * q" using "1.prems" by (intro mult_left_mono) auto
        then have "k + nproc \<le> j" using q by simp
        moreover have "j - (k + nproc) = nproc * (q - 1)" using q by (simp add: algebra_simps)
        ultimately show ?thesis using j by auto
      qed simp
    next
      fix j assume "j \<in> insert k ?R"
      then consider "j = k" | "j \<in> ?R" by auto
      then show "j \<in> ?L"
      proof cases
        case 1 then show ?thesis using True by simp
      next
        case 2
        then have d: "nproc dvd (j - (k + nproc))" by simp
        have "nproc dvd (j - (k + nproc)) + nproc" using d by (rule dvd_add) simp
        moreover have "(j - (k + nproc)) + nproc = j - k" by simp
        ultimately have "nproc dvd (j - k)" by simp
        with 2 "1.prems" show ?thesis by auto
      qed
    qed
    with step ih show ?thesis by simp
  next
    case False
    then show ?thesis by (subst stride_indices.simps) auto
  qed
qed

lemma distinct_stride_indices:
  assumes "0 < nproc"
  shows "distinct (stride_indices nproc num_terms k) \<and> sorted (stride_indices nproc num_terms k)"
  using assms
proof (induction nproc num_terms k rule: stride_indices.induct)
  case (1 nproc num_terms k)
  show ?case
  proof (cases "k < num_terms")
    case True
    have step: "stride_indices nproc num_terms k = k # stride_indices nproc num_terms (k + nproc)"
      using True "1.prems" by (subst stride_indices.simps) simp
    have "\<forall>j \<in> set (stride_indices nproc num_terms (k + nproc)). k < j"
      using "1.prems" by (auto simp add: set_stride_indices)
    then show ?thesis using step "1.IH" True "1.prems" by auto
  next
    case False
    then have "stride_indices nproc num_terms k = []" by (subst stride_indices.simps) simp
    then show ?thesis by simp
  qed
qed

lemma owned_by_residue:
  assumes "0 < nproc" "0 \<le> rank" "rank < nproc"
  shows "set (stride_indices nproc num_terms rank) =
           {k. 0 \<le> k \<and> k < num_terms \<and> k mod nproc = rank}"
proof -
  have "(rank \<le> j \<and> nproc dvd (j - rank)) \<longleftrightarrow> (0 \<le> j \<and> j mod nproc = rank)" for j
  proof
    assume a: "rank \<le> j \<and> nproc dvd (j - rank)"
    then have "(j - rank) mod nproc = 0" by auto
    then have "j mod nproc = rank mod nproc" by (metis a mod_eq_dvd_iff) 
    then show "0 \<le> j \<and> j mod nproc = rank" using assms a by simp
  next
    assume a: "0 \<le> j \<and> j mod nproc = rank"
    then have "j mod nproc = rank mod nproc" using assms by simp
    then have "nproc dvd (j - rank)" by (simp add: mod_eq_dvd_iff)
    moreover have "j mod nproc \<le> j" using a assms by (intro zmod_le_nonneg_dividend) auto
    ultimately show "rank \<le> j \<and> nproc dvd (j - rank)" using a by simp
  qed
  then show ?thesis using assms by (auto simp add: set_stride_indices)
qed



text \<open>
  When \<open>num_terms + nproc - 1\<close> is an \<^verbatim>\<open>int\<close>, no index of the loop leaves the range, and
  the loop runs its body on the strided indices. Whenever the loop returns, it has done so.
\<close>

lemma stride_loop_run_body:
  assumes "0 < nproc" "num_terms + nproc - 1 \<le> INT_MAX"
  shows "stride_loop body nproc num_terms k acc = run_body body (stride_indices nproc num_terms k) acc"
  using assms
proof (induction body nproc num_terms k acc rule: stride_loop.induct)
  case (1 body nproc num_terms k acc)
  show ?case
  proof (cases "k < num_terms")
    case True
    then have fits: "\<not> INT_MAX < k + nproc" using "1.prems" by simp
    have "stride_loop body nproc num_terms k acc =
            bindF (body k acc) (\<lambda>acc'. stride_loop body nproc num_terms (k + nproc) acc')"
      using True fits "1.prems" by (subst stride_loop.simps) simp
    also have "\<dots> = bindF (body k acc) (run_body body (stride_indices nproc num_terms (k + nproc)))"
      using "1.IH" True fits "1.prems" by (auto simp add: bindF_def split: sum.splits)
    also have "\<dots> = run_body body (stride_indices nproc num_terms k) acc"
      using True "1.prems" by (subst (2) stride_indices.simps) simp
    finally show ?thesis .
  next
    case False
    then show ?thesis
      by (subst stride_loop.simps, subst stride_indices.simps) simp
  qed
qed

lemma stride_loop_returns:
  assumes "0 < nproc" "stride_loop body nproc num_terms k acc = Inr r"
  shows "run_body body (stride_indices nproc num_terms k) acc = Inr r"
  using assms
proof (induction body nproc num_terms k acc rule: stride_loop.induct)
  case (1 body nproc num_terms k acc)
  show ?case
  proof (cases "k < num_terms")
    case True
    have unfold: "stride_loop body nproc num_terms k acc =
            bindF (body k acc) (\<lambda>acc'. if INT_MAX < k + nproc then Inl SignedOverflow
                       else stride_loop body nproc num_terms (k + nproc) acc')"
      using True "1.prems"(1) by (subst stride_loop.simps) simp
    from unfold "1.prems"(2) obtain acc' where
      b: "body k acc = Inr acc'" and fits: "\<not> INT_MAX < k + nproc"
      and rest: "stride_loop body nproc num_terms (k + nproc) acc' = Inr r"
      by (auto simp add: bindF_def split: sum.splits if_splits)
    have "run_body body (stride_indices nproc num_terms (k + nproc)) acc' = Inr r"
      using "1.IH" True fits "1.prems"(1) rest by simp
    then show ?thesis
      using True "1.prems"(1) b by (subst stride_indices.simps) (simp add: bindF_def)
  next
    case False
    then show ?thesis
      using "1.prems"(2) by (subst stride_indices.simps) (simp add: stride_loop.simps)
  qed
qed

text \<open>
  When the loop reaches an index \<open>j\<close> with \<open>INT_MAX < j + nproc\<close> and its body does not fail,
  the addition \<^verbatim>\<open>k += size\<close> after the body leaves the range of \<^verbatim>\<open>int\<close>.
\<close>

lemma stride_loop_overflows:
  assumes "0 < nproc" "\<And>i a. \<exists>a'. body i a = Inr a'"
    "k \<le> j" "j < num_terms" "nproc dvd (j - k)" "INT_MAX < j + nproc"
  shows "stride_loop body nproc num_terms k acc = Inl SignedOverflow"
  using assms
proof (induction body nproc num_terms k acc rule: stride_loop.induct)
  case (1 body nproc num_terms k acc)
  have lt: "k < num_terms" using "1.prems"(3,4) by simp
  obtain acc' where b: "body k acc = Inr acc'" using "1.prems"(2) by blast
  have unfold: "stride_loop body nproc num_terms k acc =
            (if INT_MAX < k + nproc then Inl SignedOverflow
             else stride_loop body nproc num_terms (k + nproc) acc')"
    using lt "1.prems"(1) b by (subst stride_loop.simps) (simp add: bindF_def)
  show ?case
  proof (cases "INT_MAX < k + nproc")
    case True
    then show ?thesis using unfold by simp
  next
    case False
    then have "k \<noteq> j" using "1.prems"(6) by auto
    then have pos: "0 < j - k" using "1.prems"(3) by simp
    from "1.prems"(5) obtain q where q: "j - k = nproc * q" by (auto simp: dvd_def)
    with pos "1.prems"(1) have "0 < q" by (simp add: zero_less_mult_iff)
    then have "nproc * 1 \<le> nproc * q" using "1.prems"(1) by (intro mult_left_mono) auto
    then have le: "k + nproc \<le> j" using q by simp
    have "j - (k + nproc) = nproc * (q - 1)" using q by (simp add: algebra_simps)
    then have dv: "nproc dvd (j - (k + nproc))" by simp
    have "stride_loop body nproc num_terms (k + nproc) acc' = Inl SignedOverflow"
      using "1.IH"[of acc'] lt "1.prems"(1,2,4,6) False le dv by simp
    then show ?thesis using unfold False by simp
  qed
qed

lemma run_body_collect: "run_body (\<lambda>k ks. Inr (ks @ [k])) js acc = Inr (acc @ js)"
  by (induction js arbitrary: acc) (simp_all add: bindF_def)

lemma owned_terms_indices:
  "0 < nproc \<Longrightarrow> num_terms + nproc - 1 \<le> INT_MAX \<Longrightarrow>
     owned_terms rank nproc num_terms = Inr (stride_indices nproc num_terms rank)"
  by (simp add: owned_terms_def stride_loop_run_body run_body_collect)

lemma compute_local_sum_run_body:
  "0 < nproc \<Longrightarrow> num_terms + nproc - 1 \<le> INT_MAX \<Longrightarrow>
     compute_local_sum rd rank nproc num_terms =
       run_body (sum_body rd) (stride_indices nproc num_terms rank) 0"
  by (simp add: compute_local_sum_def sum_body_def stride_loop_run_body mpf_set_ui_def)

lemma compute_local_sum_returns:
  "0 < nproc \<Longrightarrow> compute_local_sum rd rank nproc num_terms = Inr s \<Longrightarrow>
     run_body (sum_body rd) (stride_indices nproc num_terms rank) 0 = Inr s"
  using stride_loop_returns[of nproc "sum_body rd" num_terms rank 0 s]
  by (simp add: compute_local_sum_def sum_body_def mpf_set_ui_def)

lemma owned_set_residue:
  assumes "0 < nproc" "num_terms + nproc - 1 \<le> INT_MAX" "0 \<le> rank" "rank < nproc"
  shows "owned_set rank nproc num_terms = {k. 0 \<le> k \<and> k < num_terms \<and> k mod nproc = rank}"
  using assms by (simp add: owned_set_def owned_terms_indices owned_by_residue)

section \<open>The midpoint-rule estimator\<close>

lemma midpoint_loop_sum:
  "midpoint_loop h i local_end local_sum = local_sum + (\<Sum>j\<in>{i..<local_end}. midpoint_value h j)"
proof (induction h i local_end local_sum rule: midpoint_loop.induct)
  case (1 h i local_end local_sum)
  show ?case
  proof (cases "i < local_end")
    case True
    have split: "{i..<local_end} = insert i {i + 1..<local_end}" using True by auto
    have "midpoint_loop h i local_end local_sum =
            midpoint_loop h (i + 1) local_end (local_sum + midpoint_value h i)"
      using True by (subst midpoint_loop.simps) (simp add: midpoint_value_def Let_def)
    also have "\<dots> = local_sum + midpoint_value h i + (\<Sum>j\<in>{i + 1..<local_end}. midpoint_value h j)"
      using "1.IH"[OF True refl] by (simp add: midpoint_value_def)
    also have "\<dots> = local_sum + (\<Sum>j\<in>{i..<local_end}. midpoint_value h j)"
      by (subst split) simp
    finally show ?thesis .
  next
    case False
    then show ?thesis by (subst midpoint_loop.simps) simp
  qed
qed

lemma int_div_mult_le: "0 < q \<Longrightarrow> (n div q) * q \<le> (n::int)"
  using div_mult_mod_eq[of n q] pos_mod_sign[of q n] by linarith

lemma sum_int_concat:
  fixes g :: "int \<Rightarrow> rat"
  assumes "a \<le> b" "b \<le> c"
  shows "sum g {a..<b} + sum g {b..<c} = sum g {a..<c}"
proof -
  have "{a..<c} = {a..<b} \<union> {b..<c}" using assms by auto
  moreover have "{a..<b} \<inter> {b..<c} = {}" by auto
  ultimately show ?thesis by (simp add: sum.union_disjoint)
qed

lemma sum_list_times_const:
  fixes f :: "'a \<Rightarrow> rat"
  shows "(\<Sum>x\<leftarrow>xs. f x * c) = (\<Sum>x\<leftarrow>xs. f x) * c"
  by (induction xs) (simp_all add: algebra_simps)

lemma local_range_bounds:
  assumes "1 \<le> nproc" "0 \<le> n" "0 \<le> rank" "rank < nproc"
  shows "local_range n nproc rank = (block_bound n nproc rank, block_bound n nproc (rank + 1))"
proof -
  have "c_div n nproc = n div nproc"
    using assms by (cases "n = 0") (simp_all add: c_div_def)
  then show ?thesis using assms by (auto simp add: local_range_def block_bound_def Let_def)
qed

lemma block_bound_mono:
  assumes "1 \<le> nproc" "0 \<le> n" "0 \<le> r" "r < nproc"
  shows "block_bound n nproc r \<le> block_bound n nproc (r + 1)"
proof (cases "r + 1 = nproc")
  case True
  have "(n div nproc) * r \<le> (n div nproc) * nproc"
    using assms by (intro mult_left_mono) (auto simp add: pos_imp_zdiv_nonneg_iff)
  also have "\<dots> \<le> n" using assms by (intro int_div_mult_le) simp
  finally show ?thesis using True assms by (simp add: block_bound_def)
next
  case False
  have "0 \<le> n div nproc" using assms by (simp add: pos_imp_zdiv_nonneg_iff)
  then have "(n div nproc) * r \<le> (n div nproc) * (r + 1)" by (intro mult_left_mono) auto
  then show ?thesis using False assms by (simp add: block_bound_def)
qed

lemma block_bound_mono_le:
  assumes "1 \<le> nproc" "0 \<le> n" "0 \<le> r" "r \<le> s" "s \<le> nproc"
  shows "block_bound n nproc r \<le> block_bound n nproc s"
proof -
  have "\<forall>r. 0 \<le> r \<and> r + int d \<le> nproc \<longrightarrow> block_bound n nproc r \<le> block_bound n nproc (r + int d)" for d
  proof (induction d)
    case 0 show ?case by simp
  next
    case (Suc d)
    show ?case
    proof (intro allI impI)
      fix r assume r: "0 \<le> r \<and> r + int (Suc d) \<le> nproc"
      then have "block_bound n nproc r \<le> block_bound n nproc (r + int d)" using Suc by simp
      also have "\<dots> \<le> block_bound n nproc (r + int d + 1)"
        using r assms by (intro block_bound_mono) auto
      finally show "block_bound n nproc r \<le> block_bound n nproc (r + int (Suc d))"
        by (simp add: algebra_simps)
    qed
  qed
  from this[of "nat (s - r)"] assms show ?thesis by (auto simp: algebra_simps)
qed

lemma blocks_sum:
  assumes "1 \<le> nproc" "0 \<le> n" "int m \<le> nproc"
  shows "(\<Sum>r\<leftarrow>[0..int m - 1]. \<Sum>j\<in>{block_bound n nproc r..<block_bound n nproc (r + 1)}. g j)
           = (\<Sum>j\<in>{0..<block_bound n nproc (int m)}. (g j :: rat))"
  using assms(3)
proof (induction m)
  case 0
  have "block_bound n nproc 0 = 0" using assms by (simp add: block_bound_def)
  then show ?case by simp
next
  case (Suc m)
  have le: "block_bound n nproc (int m) \<le> block_bound n nproc (int m + 1)"
    using Suc.prems assms by (intro block_bound_mono) auto
  have z: "0 \<le> block_bound n nproc (int m)"
    using block_bound_mono_le[of nproc n 0 "int m"] assms Suc.prems by (simp add: block_bound_def)
  have "[0..int (Suc m) - 1] = [0..int m - 1] @ [int m]"
    by (simp add: upto_rec2)
  then have "(\<Sum>r\<leftarrow>[0..int (Suc m) - 1]. \<Sum>j\<in>{block_bound n nproc r..<block_bound n nproc (r + 1)}. g j)
      = (\<Sum>j\<in>{0..<block_bound n nproc (int m)}. g j)
        + (\<Sum>j\<in>{block_bound n nproc (int m)..<block_bound n nproc (int m + 1)}. g j)"
    using Suc by simp
  also have "\<dots> = (\<Sum>j\<in>{0..<block_bound n nproc (int m + 1)}. g j)"
    using z le by (rule sum_int_concat)
  finally show ?case by (simp add: add.commute)
qed

lemma pi_mpi_local_sum:
  assumes "1 \<le> nproc" "0 \<le> n" "0 \<le> rank" "rank < nproc"
  shows "pi_mpi_local n nproc rank =
           (\<Sum>j\<in>{block_bound n nproc rank..<block_bound n nproc (rank + 1)}.
               midpoint_value (1 / of_int n) j) * (1 / of_int n)"
  using assms by (simp add: pi_mpi_local_def local_range_bounds midpoint_loop_sum)

lemma pi_mpi_total:
  assumes "1 \<le> nproc" "0 \<le> n"
  shows "pi_mpi n nproc = (\<Sum>j\<in>{0..<n}. midpoint_value (1 / of_int n) j) * (1 / of_int n)"
proof -
  define h :: rat where "h = 1 / of_int n"
  have "pi_mpi n nproc =
          (\<Sum>r\<leftarrow>[0..nproc - 1]. (\<Sum>j\<in>{block_bound n nproc r..<block_bound n nproc (r + 1)}.
               midpoint_value h j) * h)"
    unfolding pi_mpi_def h_def using assms
    by (intro arg_cong[where f = sum_list] map_cong refl pi_mpi_local_sum) auto
  also have "\<dots> = (\<Sum>r\<leftarrow>[0..nproc - 1]. (\<Sum>j\<in>{block_bound n nproc r..<block_bound n nproc (r + 1)}.
               midpoint_value h j)) * h"
    by (rule sum_list_times_const)
  also have "(\<Sum>r\<leftarrow>[0..nproc - 1]. (\<Sum>j\<in>{block_bound n nproc r..<block_bound n nproc (r + 1)}.
               midpoint_value h j))
           = (\<Sum>j\<in>{0..<block_bound n nproc nproc}. midpoint_value h j)"
    using blocks_sum[of nproc n "nat nproc" "midpoint_value h"] assms by simp
  finally show ?thesis by (simp add: block_bound_def h_def)
qed

lemma range_set_blocks:
  assumes "1 \<le> nproc" "0 \<le> n" "0 \<le> rank" "rank < nproc"
  shows "range_set n nproc rank = {block_bound n nproc rank..<block_bound n nproc (rank + 1)}"
  using assms by (simp add: range_set_def local_range_bounds)

lemma range_sets_cover:
  assumes "1 \<le> nproc" "0 \<le> n"
  shows "(\<Union>rank\<in>{0..<nproc}. range_set n nproc rank) = {0..<n}"
proof (intro set_eqI iffI)
  fix j assume "j \<in> (\<Union>rank\<in>{0..<nproc}. range_set n nproc rank)"
  then obtain r where r: "0 \<le> r" "r < nproc" "j \<in> range_set n nproc r" by auto
  then have j: "block_bound n nproc r \<le> j" "j < block_bound n nproc (r + 1)"
    using assms by (simp_all add: range_set_blocks)
  have "block_bound n nproc 0 \<le> block_bound n nproc r"
    using assms r by (intro block_bound_mono_le) auto
  moreover have "block_bound n nproc (r + 1) \<le> block_bound n nproc nproc"
    using assms r by (intro block_bound_mono_le) auto
  ultimately show "j \<in> {0..<n}" using j assms by (simp add: block_bound_def)
next
  fix j assume "j \<in> {0..<n}"
  then have j: "0 \<le> j" "j < n" by auto
  define q where "q = n div nproc"
  have q0: "0 \<le> q" using assms by (simp add: q_def pos_imp_zdiv_nonneg_iff)
  show "j \<in> (\<Union>rank\<in>{0..<nproc}. range_set n nproc rank)"
  proof (cases "q * (nproc - 1) \<le> j")
    case True
    have "j \<in> range_set n nproc (nproc - 1)"
      using True j assms by (simp add: range_set_blocks block_bound_def q_def)
    then show ?thesis using assms by (intro UN_I[of "nproc - 1"]) auto
  next
    case False
    then have qpos: "0 < q" using j q0 assms
      by (cases "q = 0") auto
    define r where "r = j div q"
    have r0: "0 \<le> r" using j qpos by (simp add: r_def pos_imp_zdiv_nonneg_iff)
    have lo: "q * r \<le> j" using int_div_mult_le[OF qpos, of j] by (simp add: r_def mult.commute)
    have hi: "j < q * (r + 1)"
      using qpos by (metis r_def add.commute distrib_left mult.right_neutral 
          pos_mod_bound mult_div_mod_eq add_strict_left_mono)
    have "q * r < q * (nproc - 1)" using lo False by simp
    then have rlt: "r < nproc - 1" using qpos by (simp add: mult_less_cancel_left_pos)
    have "j \<in> range_set n nproc r"
      using lo hi r0 rlt assms by (simp add: range_set_blocks block_bound_def q_def)
    then show ?thesis using r0 rlt by (intro UN_I[of r]) auto
  qed
qed

lemma range_sets_disjoint:
  assumes "1 \<le> nproc" "0 \<le> n" "0 \<le> r1" "r1 < r2" "r2 < nproc"
  shows "range_set n nproc r1 \<inter> range_set n nproc r2 = {}"
proof -
  have "block_bound n nproc (r1 + 1) \<le> block_bound n nproc r2"
    using assms by (intro block_bound_mono_le) auto
  then show ?thesis using assms by (auto simp add: range_set_blocks)
qed


text \<open>
  Claim C10. In the integration estimator, for every group size \<open>1 \<le> nproc\<close> and
  \<open>n = 1000000000\<close>, the ranges \<open>[(n / nproc) * rank, (n / nproc) * (rank + 1))\<close> of the
  ranks \<open>0, \<dots>, nproc - 2\<close> together with \<open>[(n / nproc) * (nproc - 1), n)\<close> of the last
  rank are pairwise disjoint and cover \<open>[0, n)\<close>; so in exact arithmetic the sum of the
  contributions of the ranks is the sum that a single process computes over all \<open>n\<close>
  intervals.
\<close>

theorem block_ranges_partition:
  assumes "1 \<le> nproc"
  shows "(\<forall>rank\<in>{0..<nproc - 1}. local_range n_intervals nproc rank
             = ((n_intervals div nproc) * rank, (n_intervals div nproc) * (rank + 1)))
       \<and> local_range n_intervals nproc (nproc - 1)
             = ((n_intervals div nproc) * (nproc - 1), n_intervals)
       \<and> (\<Union>rank\<in>{0..<nproc}. range_set n_intervals nproc rank) = {0..<n_intervals}
       \<and> (\<forall>r1\<in>{0..<nproc}. \<forall>r2\<in>{0..<nproc}. r1 \<noteq> r2 \<longrightarrow>
             range_set n_intervals nproc r1 \<inter> range_set n_intervals nproc r2 = {})
       \<and> pi_mpi n_intervals nproc
             = (\<Sum>i\<in>{0..<n_intervals}. midpoint_value (1 / of_int n_intervals) i)
                 * (1 / of_int n_intervals)
       \<and> pi_mpi n_intervals nproc = pi_mpi n_intervals 1"
proof -
  have n: "0 \<le> n_intervals" by (simp add: n_intervals_def)
  have a: "\<forall>rank\<in>{0..<nproc - 1}. local_range n_intervals nproc rank
             = ((n_intervals div nproc) * rank, (n_intervals div nproc) * (rank + 1))"
    using assms n by (auto simp add: local_range_bounds block_bound_def)
  have b: "local_range n_intervals nproc (nproc - 1)
             = ((n_intervals div nproc) * (nproc - 1), n_intervals)"
    using assms n by (simp add: local_range_bounds block_bound_def)
  have c: "(\<Union>rank\<in>{0..<nproc}. range_set n_intervals nproc rank) = {0..<n_intervals}"
    using assms n by (rule range_sets_cover)
  have d: "\<forall>r1\<in>{0..<nproc}. \<forall>r2\<in>{0..<nproc}. r1 \<noteq> r2 \<longrightarrow>
             range_set n_intervals nproc r1 \<inter> range_set n_intervals nproc r2 = {}"
  proof (intro ballI impI)
    fix r1 r2 assume r: "r1 \<in> {0..<nproc}" "r2 \<in> {0..<nproc}" "r1 \<noteq> r2"
    then consider "r1 < r2" | "r2 < r1" by linarith
    then show "range_set n_intervals nproc r1 \<inter> range_set n_intervals nproc r2 = {}"
    proof cases
      case 1
      then show ?thesis using range_sets_disjoint[of nproc n_intervals r1 r2] assms n r by simp
    next
      case 2
      then show ?thesis
        using range_sets_disjoint[of nproc n_intervals r2 r1] assms n r by (simp add: Int_commute)
    qed
  qed
  have e: "pi_mpi n_intervals nproc
             = (\<Sum>i\<in>{0..<n_intervals}. midpoint_value (1 / of_int n_intervals) i)
                 * (1 / of_int n_intervals)"
    using assms n by (rule pi_mpi_total)
  have f: "pi_mpi n_intervals nproc = pi_mpi n_intervals 1"
    using pi_mpi_total[OF assms n] pi_mpi_total[of 1 n_intervals] n by simp
  from a b c d e f show ?thesis by blast
qed

theorem block_ranges_partition_witness:
  "(1::int) \<le> 3
   \<and> local_range n_intervals 3 0 = (0, 333333333)
   \<and> local_range n_intervals 3 1 = (333333333, 666666666)
   \<and> local_range n_intervals 3 2 = (666666666, 1000000000)
   \<and> pi_mpi n_intervals 3 = pi_mpi n_intervals 1"
  using block_ranges_partition[of 3]
  by (simp add: n_intervals_def)

lemma pi_mpi_small_run: "pi_mpi 10 3 = pi_mpi 10 1"
  by (simp add: pi_mpi_def pi_mpi_local_def local_range_def c_div_def upto.simps
      midpoint_loop.simps Let_def)

section \<open>The local accumulator\<close>

lemma unat_word_of_int_small:
  assumes "0 \<le> k" "k < 2 ^ 61"
  shows "unat (word_of_int k :: ulong) = nat k"
proof -
  have "k < 2 ^ 64" using assms(2) by simp
  then show ?thesis using assms(1)
    by (simp add: unat_eq_nat_uint uint_word_of_int take_bit_eq_mod)
qed

lemma weight_sum_nonneg: "0 \<le> weight_sum ks"
  by (induction ks) (simp_all add: weight_sum_def)

lemma run_body_error:
  assumes acc: "rel_acc e rd"
  shows "(\<forall>k\<in>set ks. 0 \<le> k \<and> k < 2 ^ 61) \<Longrightarrow> \<bar>a - A\<bar> \<le> d \<Longrightarrow> \<bar>A\<bar> + 4 * weight_sum ks \<le> 5 \<Longrightarrow>
         \<exists>s. run_body (sum_body rd) ks a = Inr s \<and>
             \<bar>s - (A + exact_sum ks)\<bar>
               \<le> (1 + e) ^ length ks * (d + 121 * e * weight_sum ks + 5 * e * of_nat (length ks))"
proof (induction ks arbitrary: a A d)
  case Nil
  then show ?case by (simp add: exact_sum_def weight_sum_def)
next
  case (Cons k ks)
  have e0: "0 \<le> e" using acc by (simp add: rel_acc_def)
  have k: "0 \<le> k" "k < 2 ^ 61" using Cons.prems(1) by simp_all
  define n where "n = nat k"
  have un: "unat (word_of_int k :: ulong) = n" using k by (simp add: unat_word_of_int_small n_def)
  then have "unat (word_of_int k :: ulong) < 2 ^ 61" using k by (simp add: n_def)
  from compute_bbp_term_error[OF acc this] obtain t where
    t: "compute_bbp_term rd (word_of_int k) = Inr t" "\<bar>t - bbp_term n\<bar> \<le> 121 * e / 16 ^ n"
    by (auto simp: un)
  define a' where "a' = rd (a + t)"
  define d' where "d' = (1 + e) * (d + 121 * e / 16 ^ n) + 5 * e"
  define g :: rat where "g = 1 / 16 ^ n"
  have w: "weight_sum (k # ks) = g + weight_sum ks" by (simp add: weight_sum_def n_def g_def)
  have wn: "0 \<le> weight_sum ks" by (rule weight_sum_nonneg)
  have tb: "\<bar>bbp_term n\<bar> \<le> 4 * g" using bbp_term_abs[of n] by (simp add: g_def)
  have p3: "\<bar>A\<bar> + 4 * g + 4 * weight_sum ks \<le> 5"
    using Cons.prems(3) unfolding w by (simp add: algebra_simps)
  have tri: "\<bar>A + bbp_term n\<bar> \<le> \<bar>A\<bar> + \<bar>bbp_term n\<bar>" by (rule abs_triangle_ineq)
  have A5: "\<bar>A + bbp_term n\<bar> \<le> 5"
    using p3 tb wn tri by linarith
  have "\<bar>(a + t) - (A + bbp_term n)\<bar> \<le> d + 121 * e / 16 ^ n" using Cons.prems(2) t(2) by linarith
  from rd_near2[OF acc this A5] have a'err: "\<bar>a' - (A + bbp_term n)\<bar> \<le> d'"
    by (simp add: a'_def d'_def)
  have A': "\<bar>A + bbp_term n\<bar> + 4 * weight_sum ks \<le> 5"
    using p3 tb tri by linarith
  have "\<forall>k\<in>set ks. 0 \<le> k \<and> k < 2 ^ 61" using Cons.prems(1) by simp
  from Cons.IH[OF this a'err A'] obtain s where
    s: "run_body (sum_body rd) ks a' = Inr s"
       "\<bar>s - (A + bbp_term n + exact_sum ks)\<bar>
          \<le> (1 + e) ^ length ks * (d' + 121 * e * weight_sum ks + 5 * e * of_nat (length ks))"
    by auto
  have run: "run_body (sum_body rd) (k # ks) a = Inr s"
    using t(1) s(1) by (simp add: sum_body_def bindF_def mpf_add_def a'_def)
  have d0: "0 \<le> d" using Cons.prems(2) by linarith
  have "d' + 121 * e * weight_sum ks + 5 * e * of_nat (length ks)
          \<le> (1 + e) * (d + 121 * e * weight_sum (k # ks) + 5 * e * of_nat (length (k # ks)))"
  proof -
    have "0 \<le> e * (121 * e * weight_sum ks + 5 * e * of_nat (length ks))"
      using e0 wn by (intro mult_nonneg_nonneg add_nonneg_nonneg) auto
    then show ?thesis unfolding d'_def w by (simp add: algebra_simps g_def)
  qed
  then have "(1 + e) ^ length ks * (d' + 121 * e * weight_sum ks + 5 * e * of_nat (length ks))
          \<le> (1 + e) ^ length ks * ((1 + e) * (d + 121 * e * weight_sum (k # ks) + 5 * e * of_nat (length (k # ks))))"
    using e0 by (intro mult_left_mono) auto
  also have "\<dots> = (1 + e) ^ length (k # ks) * (d + 121 * e * weight_sum (k # ks) + 5 * e * of_nat (length (k # ks)))"
    by simp
  finally have "\<bar>s - (A + exact_sum (k # ks))\<bar>
      \<le> (1 + e) ^ length (k # ks) * (d + 121 * e * weight_sum (k # ks) + 5 * e * of_nat (length (k # ks)))"
    using s(2) by (simp add: exact_sum_def n_def add.assoc)
  with run show ?case by blast
qed

lemma weight_sum_bound:
  "sorted_wrt (<) ks \<Longrightarrow> (\<forall>k\<in>set ks. m \<le> k) \<Longrightarrow> 0 \<le> m \<Longrightarrow>
     weight_sum ks \<le> (16 / 15) / 16 ^ nat m"
proof (induction ks arbitrary: m)
  case Nil
  then show ?case by (simp add: weight_sum_def)
next
  case (Cons k ks)
  have k: "m \<le> k" "0 \<le> k" using Cons.prems by auto
  have "weight_sum ks \<le> (16 / 15) / 16 ^ nat (k + 1)"
    using Cons.prems k by (intro Cons.IH) auto
  also have "nat (k + 1) = Suc (nat k)" using k by simp
  finally have "weight_sum ks \<le> (1 / 15) / 16 ^ nat k" by simp
  then have "weight_sum (k # ks) \<le> (16 / 15) / 16 ^ nat k"
    by (simp add: weight_sum_def)
  also have "\<dots> \<le> (16 / 15) / 16 ^ nat m"
    using k Cons.prems(3) by (intro divide_left_mono power_increasing) auto
  finally show ?case .
qed

lemma one_plus_power:
  fixes e :: rat
  assumes "0 \<le> e"
  shows "of_nat n * e \<le> 1 / 2 \<Longrightarrow> (1 + e) ^ n \<le> 1 + 2 * of_nat n * e"
proof (induction n)
  case 0
  then show ?case by simp
next
  case (Suc n)
  have "of_nat n * e \<le> of_nat (Suc n) * e" using assms by (intro mult_right_mono) auto
  then have ne: "of_nat n * e \<le> 1 / 2" using Suc.prems by linarith
  have ih: "(1 + e) ^ n \<le> 1 + 2 * of_nat n * e" using Suc.IH ne by simp
  have "(1 + e) ^ Suc n = (1 + e) ^ n * (1 + e)" by simp
  also have "\<dots> \<le> (1 + 2 * of_nat n * e) * (1 + e)"
    using ih assms by (intro mult_right_mono) auto
  also have "\<dots> = 1 + 2 * of_nat n * e + e + (2 * (of_nat n * e)) * e" by (simp add: algebra_simps)
  also have "\<dots> \<le> 1 + 2 * of_nat n * e + e + 1 * e"
    using ne assms by (intro add_left_mono mult_right_mono) auto
  also have "\<dots> = 1 + 2 * of_nat (Suc n) * e" by (simp add: algebra_simps)
  finally show ?case .
qed

lemma one_plus_power_le_2:
  fixes e :: rat
  assumes "0 \<le> e" "of_nat n * e \<le> 1 / 2"
  shows "(1 + e) ^ n \<le> 2"
  using one_plus_power[OF assms] assms(2) by (simp add: algebra_simps)

lemma length_stride_indices:
  assumes "0 < nproc" "0 \<le> k"
  shows "int (length (stride_indices nproc num_terms k)) \<le> max 0 num_terms"
proof -
  have d: "distinct (stride_indices nproc num_terms k)"
    using distinct_stride_indices[OF assms(1)] by simp
  have "set (stride_indices nproc num_terms k) \<subseteq> {0..<num_terms}"
    using assms by (auto simp add: set_stride_indices)
  then have "card (set (stride_indices nproc num_terms k)) \<le> card {0..<num_terms}"
    by (intro card_mono) auto
  then show ?thesis using distinct_card[OF d] by simp
qed

lemma strided_sum_error:
  assumes acc: "rel_acc e rd" and np: "0 < nproc" and rk: "0 \<le> rank"
    and nt: "num_terms \<le> INT_MAX" and small: "of_int num_terms * e \<le> 1 / 2"
  shows "\<exists>s. run_body (sum_body rd) (stride_indices nproc num_terms rank) 0 = Inr s \<and>
           \<bar>s - exact_sum (stride_indices nproc num_terms rank)\<bar>
             \<le> 260 * e + 10 * e * of_nat (length (stride_indices nproc num_terms rank))"
proof -
  define ks where "ks = stride_indices nproc num_terms rank"
  have e0: "0 \<le> e" using acc by (simp add: rel_acc_def)
  have range: "\<forall>k\<in>set ks. 0 \<le> k \<and> k < 2 ^ 61"
    using np rk nt by (auto simp add: ks_def set_stride_indices INT_MAX_def)
  have sorted: "sorted_wrt (<) ks"
    using distinct_stride_indices[OF np, of num_terms rank]
    by (simp add: ks_def strict_sorted_iff)
  have "weight_sum ks \<le> (16 / 15) / 16 ^ nat 0"
    using sorted range by (intro weight_sum_bound) auto
  then have w: "weight_sum ks \<le> 16 / 15" by simp
  have len: "int (length ks) \<le> max 0 num_terms"
    unfolding ks_def using np rk by (rule length_stride_indices)
  have lene: "of_nat (length ks) * e \<le> 1 / 2"
  proof (cases "0 \<le> num_terms")
    case True
    then have "(of_nat (length ks) :: rat) \<le> of_int num_terms"
      using len by (metis max.absorb2 of_int_le_iff of_int_of_nat_eq)
    then have "of_nat (length ks) * e \<le> of_int num_terms * e"
      using e0 by (intro mult_right_mono) auto
    then show ?thesis using small by linarith
  next
    case False
    then have "length ks = 0" using len by simp
    then show ?thesis by simp
  qed
  have "\<bar>(0::rat) - 0\<bar> \<le> 0" by simp
  moreover have "\<bar>0::rat\<bar> + 4 * weight_sum ks \<le> 5" using w by simp
  ultimately obtain s where
    s: "run_body (sum_body rd) ks 0 = Inr s"
       "\<bar>s - (0 + exact_sum ks)\<bar>
          \<le> (1 + e) ^ length ks * (0 + 121 * e * weight_sum ks + 5 * e * of_nat (length ks))"
    using run_body_error[OF acc range] by blast
  have "121 * e * weight_sum ks \<le> 121 * e * (16 / 15)"
    using w e0 by (intro mult_left_mono) auto
  then have inner: "0 + 121 * e * weight_sum ks + 5 * e * of_nat (length ks)
                      \<le> 130 * e + 5 * e * of_nat (length ks)"
    using e0 by simp
  have inner0: "0 \<le> 130 * e + 5 * e * of_nat (length ks)" using e0 by simp
  have "(1 + e) ^ length ks * (0 + 121 * e * weight_sum ks + 5 * e * of_nat (length ks))
          \<le> (1 + e) ^ length ks * (130 * e + 5 * e * of_nat (length ks))"
    using inner e0 by (intro mult_left_mono) auto
  also have "\<dots> \<le> 2 * (130 * e + 5 * e * of_nat (length ks))"
    using one_plus_power_le_2[OF e0 lene] inner0 by (intro mult_right_mono) auto
  finally have "\<bar>s - exact_sum ks\<bar> \<le> 260 * e + 10 * e * of_nat (length ks)"
    using s(2) by simp
  then show ?thesis using s(1) by (auto simp add: ks_def)
qed

lemma compute_local_sum_error:
  assumes acc: "rel_acc e rd" and np: "0 < nproc" and rk: "0 \<le> rank"
    and nt: "num_terms + nproc - 1 \<le> INT_MAX" and small: "of_int num_terms * e \<le> 1 / 2"
  shows "\<exists>s. compute_local_sum rd rank nproc num_terms = Inr s \<and>
           \<bar>s - exact_sum (stride_indices nproc num_terms rank)\<bar>
             \<le> 260 * e + 10 * e * of_nat (length (stride_indices nproc num_terms rank))"
proof -
  have "num_terms \<le> INT_MAX" using np nt by simp
  from strided_sum_error[OF acc np rk this small] show ?thesis
    using np nt by (simp add: compute_local_sum_run_body)
qed

lemma exact_sum_abs:
  assumes "sorted_wrt (<) ks" "\<forall>k\<in>set ks. 0 \<le> k"
  shows "\<bar>exact_sum ks\<bar> \<le> 64 / 15"
proof -
  have "\<bar>exact_sum ks\<bar> \<le> 4 * weight_sum ks"
  proof (induction ks)
    case Nil show ?case by (simp add: exact_sum_def weight_sum_def)
  next
    case (Cons k ks)
    have "\<bar>bbp_term (nat k)\<bar> \<le> 4 * (1 / 16 ^ nat k)" using bbp_term_abs[of "nat k"] by simp
    moreover have "\<bar>bbp_term (nat k) + exact_sum ks\<bar> \<le> \<bar>bbp_term (nat k)\<bar> + \<bar>exact_sum ks\<bar>"
      by (rule abs_triangle_ineq)
    ultimately show ?case using Cons by (simp add: exact_sum_def weight_sum_def)
  qed
  moreover have "weight_sum ks \<le> (16 / 15) / 16 ^ nat 0"
    using assms by (intro weight_sum_bound) auto
  ultimately show ?thesis by simp
qed

lemma strided_sum_bound:
  assumes acc: "rel_acc e rd" and np: "0 < nproc" and rk: "0 \<le> rank"
    and nt: "num_terms \<le> INT_MAX" and small: "of_int num_terms * e \<le> 1 / 2"
  shows "\<exists>s. run_body (sum_body rd) (stride_indices nproc num_terms rank) 0 = Inr s \<and> \<bar>s\<bar> \<le> 140"
proof -
  define ks where "ks = stride_indices nproc num_terms rank"
  have e: "0 \<le> e" "e \<le> 1 / 2" using acc by (simp_all add: rel_acc_def)
  from strided_sum_error[OF assms] obtain s where
    s: "run_body (sum_body rd) ks 0 = Inr s"
       "\<bar>s - exact_sum ks\<bar> \<le> 260 * e + 10 * e * of_nat (length ks)"
    by (auto simp: ks_def)
  have len: "int (length ks) \<le> max 0 num_terms"
    unfolding ks_def using np rk by (rule length_stride_indices)
  have lene: "of_nat (length ks) * e \<le> 1 / 2"
  proof (cases "0 \<le> num_terms")
    case True
    then have "(of_nat (length ks) :: rat) \<le> of_int num_terms"
      using len by (metis max.absorb2 of_int_le_iff of_int_of_nat_eq)
    then have "of_nat (length ks) * e \<le> of_int num_terms * e"
      using e by (intro mult_right_mono) auto
    then show ?thesis using small by linarith
  next
    case False
    then have "length ks = 0" using len by simp
    then show ?thesis by simp
  qed
  have "\<bar>exact_sum ks\<bar> \<le> 64 / 15"
    using distinct_stride_indices[OF np, of num_terms rank] np rk
    by (intro exact_sum_abs) (auto simp add: ks_def strict_sorted_iff set_stride_indices)
  moreover have "260 * e \<le> 130" using e by simp
  moreover have "10 * e * of_nat (length ks) \<le> 5" using lene by (simp add: algebra_simps)
  ultimately have "\<bar>s\<bar> \<le> 140" using s(2) by linarith
  with s(1) show ?thesis by (auto simp: ks_def)
qed

lemma compute_local_sum_bound:
  assumes acc: "rel_acc e rd" and np: "0 < nproc" and rk: "0 \<le> rank"
    and nt: "num_terms \<le> INT_MAX" and small: "of_int num_terms * e \<le> 1 / 2"
    and s: "compute_local_sum rd rank nproc num_terms = Inr s"
  shows "\<bar>s\<bar> \<le> 140"
  using strided_sum_bound[OF acc np rk nt small] compute_local_sum_returns[OF np s] by auto

lemma exact_apply: "exact x = x"
  by (simp add: exact_def)

lemma rel_acc_exact: "rel_acc 0 exact"
  by (simp add: rel_acc_def exact_def)

lemma run_body_exact:
  "(\<forall>k\<in>set ks. 0 \<le> k \<and> k < 2 ^ 61) \<Longrightarrow>
     run_body (sum_body exact) ks a = Inr (a + exact_sum ks)"
proof (induction ks arbitrary: a)
  case Nil
  then show ?case by (simp add: exact_sum_def)
next
  case (Cons k ks)
  have k: "0 \<le> k" "k < 2 ^ 61" using Cons.prems by simp_all
  have un: "unat (word_of_int k :: ulong) = nat k" using k by (rule unat_word_of_int_small)
  then have "unat (word_of_int k :: ulong) < 2 ^ 61" using k by simp
  then have t: "compute_bbp_term exact (word_of_int k) = Inr (bbp_term (nat k))"
    using compute_bbp_term_exact[of "word_of_int k"] un by simp
  have "run_body (sum_body exact) ks (a + bbp_term (nat k)) = Inr (a + bbp_term (nat k) + exact_sum ks)"
    using Cons.prems by (intro Cons.IH) simp
  moreover have "sum_body exact k a = Inr (a + bbp_term (nat k))"
    using t by (simp add: sum_body_def bindF_def mpf_add_def exact_apply)
  ultimately show ?case
    by (simp add: bindF_def exact_sum_def add.assoc)
qed

lemma sum_body_exact_total: "\<exists>a'. sum_body exact i a = Inr a'"
  using compute_bbp_term_no_fault[OF rel_acc_exact, of "word_of_int i"]
  by (auto simp add: sum_body_def bindF_def)

section \<open>The claim about the partition\<close>

text \<open>
  Claim C2, as amended. For every group size of at least 1 and every number of terms for
  which \<open>num_terms + nproc - 1\<close> is still an \<^verbatim>\<open>int\<close>, the loop of \<open>compute_local_sum\<close> of
  rank \<open>rank\<close> runs its body exactly once on each index of
  \<open>{rank, rank + nproc, rank + 2 * nproc, \<dots>}\<close> below \<open>num_terms\<close>, so the local sum is the
  sum of the terms of these indices; and over the ranks \<open>0 \<le> rank < nproc\<close> these index
  sets are pairwise disjoint and their union is \<open>{0, \<dots>, num_terms - 1}\<close>: each term
  index is owned by exactly one worker.
\<close>

theorem stride_partition_complete:
  assumes "1 \<le> nproc" and "num_terms + nproc - 1 \<le> INT_MAX"
  shows "(\<forall>rank\<in>{0..<nproc}. \<exists>ks. owned_terms rank nproc num_terms = Inr ks \<and> distinct ks
            \<and> set ks = {k. rank \<le> k \<and> k < num_terms \<and> nproc dvd (k - rank)}
            \<and> compute_local_sum rd rank nproc num_terms = run_body (sum_body rd) ks 0
            \<and> compute_local_sum exact rank nproc num_terms = Inr (exact_sum ks))
       \<and> (\<Union>rank\<in>{0..<nproc}. owned_set rank nproc num_terms) = {0..<num_terms}
       \<and> (\<forall>r1\<in>{0..<nproc}. \<forall>r2\<in>{0..<nproc}. r1 \<noteq> r2 \<longrightarrow>
             owned_set r1 nproc num_terms \<inter> owned_set r2 nproc num_terms = {})"
proof (intro conjI ballI impI)
  fix rank assume rank: "rank \<in> {0..<nproc}"
  define ks where "ks = stride_indices nproc num_terms rank"
  have np: "0 < nproc" using assms(1) by simp
  have owned: "owned_terms rank nproc num_terms = Inr ks"
    using np assms(2) by (simp add: owned_terms_indices ks_def)
  have dist: "distinct ks"
    using distinct_stride_indices[OF np, of num_terms rank] by (simp add: ks_def)
  have elems: "set ks = {k. rank \<le> k \<and> k < num_terms \<and> nproc dvd (k - rank)}"
    using np by (simp add: ks_def set_stride_indices)
  have run: "compute_local_sum rd rank nproc num_terms = run_body (sum_body rd) ks 0" for rd
    using np assms(2) by (simp add: compute_local_sum_run_body ks_def)
  have "num_terms \<le> INT_MAX" using np assms(2) by simp
  then have "\<forall>k\<in>set ks. 0 \<le> k \<and> k < 2 ^ 61"
    using rank by (auto simp add: elems INT_MAX_def)
  then have "run_body (sum_body exact) ks 0 = Inr (0 + exact_sum ks)" by (rule run_body_exact)
  then have "compute_local_sum exact rank nproc num_terms = Inr (exact_sum ks)"
    by (simp add: run)
  with owned dist elems run
  show "\<exists>ks. owned_terms rank nproc num_terms = Inr ks \<and> distinct ks
            \<and> set ks = {k. rank \<le> k \<and> k < num_terms \<and> nproc dvd (k - rank)}
            \<and> compute_local_sum rd rank nproc num_terms = run_body (sum_body rd) ks 0
            \<and> compute_local_sum exact rank nproc num_terms = Inr (exact_sum ks)"
    by blast
next
  show "(\<Union>rank\<in>{0..<nproc}. owned_set rank nproc num_terms) = {0..<num_terms}"
  proof (intro set_eqI iffI)
    fix k assume "k \<in> (\<Union>rank\<in>{0..<nproc}. owned_set rank nproc num_terms)"
    then show "k \<in> {0..<num_terms}" using assms by (auto simp add: owned_set_residue)
  next
    fix k assume k: "k \<in> {0..<num_terms}"
    have "k mod nproc \<in> {0..<nproc}" using assms by simp
    moreover have "k \<in> owned_set (k mod nproc) nproc num_terms"
      using k assms by (simp add: owned_set_residue)
    ultimately show "k \<in> (\<Union>rank\<in>{0..<nproc}. owned_set rank nproc num_terms)" by blast
  qed
next
  fix r1 r2 assume "r1 \<in> {0..<nproc}" "r2 \<in> {0..<nproc}" "r1 \<noteq> r2"
  then show "owned_set r1 nproc num_terms \<inter> owned_set r2 nproc num_terms = {}"
    using assms by (auto simp add: owned_set_residue)
qed

theorem stride_partition_complete_witness:
  "(1::int) \<le> 4 \<and> (10::int) + 4 - 1 \<le> INT_MAX
   \<and> owned_terms 0 4 10 = Inr [0, 4, 8] \<and> owned_terms 1 4 10 = Inr [1, 5, 9]
   \<and> owned_terms 2 4 10 = Inr [2, 6] \<and> owned_terms 3 4 10 = Inr [3, 7]
   \<and> (\<Union>rank\<in>{0..<4}. owned_set rank 4 10) = {0..<10}
   \<and> compute_local_sum exact 1 4 10 = Inr (bbp_term 1 + bbp_term 5 + bbp_term 9)"
proof -
  have h: "(1::int) \<le> 4" "(10::int) + 4 - 1 \<le> INT_MAX" by (simp_all add: INT_MAX_def)
  have o: "owned_terms 0 4 10 = Inr [0, 4, 8]" "owned_terms 1 4 10 = Inr [1, 5, 9]"
    "owned_terms 2 4 10 = Inr [2, 6]" "owned_terms 3 4 10 = Inr [3, 7]"
    by (simp_all add: owned_terms_def stride_loop.simps bindF_def INT_MAX_def)
  note t = stride_partition_complete[OF h, of exact]
  have "(1::int) \<in> {0..<4}" by simp
  with t[THEN conjunct1] have "\<exists>ks. owned_terms 1 4 10 = Inr ks \<and> distinct ks
            \<and> set ks = {k. 1 \<le> k \<and> k < 10 \<and> 4 dvd (k - 1)}
            \<and> compute_local_sum exact 1 4 10 = run_body (sum_body exact) ks 0
            \<and> compute_local_sum exact 1 4 10 = Inr (exact_sum ks)"
    by (rule bspec)
  then obtain ks where ks: "owned_terms 1 4 10 = Inr ks"
    "compute_local_sum exact 1 4 10 = Inr (exact_sum ks)" by auto
  from ks(1) have "ks = [1, 5, 9]" by (simp add: o)
  with ks(2) have c: "compute_local_sum exact 1 4 10 = Inr (bbp_term 1 + bbp_term 5 + bbp_term 9)"
    by (simp add: exact_sum_def)
  note u = t[THEN conjunct2, THEN conjunct1]
  show ?thesis by (intro conjI h o u c)
qed

text \<open>
  Claim C2 as it is written, for every number of terms, fails where the index of the loop
  leaves the range of \<^verbatim>\<open>int\<close>: with two processes and \<open>num_terms = 2147483647\<close> (the digit
  count 2147483637) rank 0 reaches the index 2147483646, and \<^verbatim>\<open>k += size\<close> overflows after
  the body has run on it. The loop of rank 0 does not end with the index set of the claim.
\<close>

theorem stride_partition_overflows:
  "owned_terms 0 2 2147483647 = Inl SignedOverflow
   \<and> compute_local_sum exact 0 2 2147483647 = Inl SignedOverflow"
proof -
  have j: "(0::int) \<le> 2147483646" "(2147483646::int) < 2147483647"
    "(2::int) dvd (2147483646 - 0)" "INT_MAX < 2147483646 + 2" "(0::int) < 2"
    by (simp_all add: INT_MAX_def)
  have a: "\<exists>a'. (\<lambda>k ks. Inr (ks @ [k])) i a = (Inr a' :: fault + int list)" for i :: int and a
    by simp
  have "stride_loop (\<lambda>k ks. Inr (ks @ [k])) 2 2147483647 0 [] = Inl SignedOverflow"
    by (rule stride_loop_overflows[where j = 2147483646, OF j(5) a j(1,2,3,4)])
  moreover have "stride_loop (sum_body exact) 2 2147483647 0 0 = Inl SignedOverflow"
    by (rule stride_loop_overflows[where j = 2147483646, OF j(5) sum_body_exact_total j(1,2,3,4)])
  ultimately show ?thesis
    by (simp add: owned_terms_def compute_local_sum_def sum_body_def mpf_set_ui_def)
qed

section \<open>Decimal text\<close>

lemma digit_cases:
  "d < (10::nat) \<Longrightarrow>
     d = 0 \<or> d = 1 \<or> d = 2 \<or> d = 3 \<or> d = 4 \<or> d = 5 \<or> d = 6 \<or> d = 7 \<or> d = 8 \<or> d = 9"
  by presburger

lemma of_char_digit_char: "d < 10 \<Longrightarrow> (of_char (digit_char d) :: nat) = 48 + d"
  using digit_cases[of d] by (auto simp add: digit_char_def)

lemma digit_val_digit_char: "d < 10 \<Longrightarrow> digit_val (digit_char d) = Some d"
  by (simp add: digit_val_def of_char_digit_char Let_def)

lemma is_digit_not_point: "is_digit c \<Longrightarrow> c \<noteq> CHR ''.'' \<and> c \<noteq> CHR ''-''"
proof -
  assume "is_digit c"
  then obtain d where d: "d < 10" "c = digit_char d" by (auto simp: is_digit_def)
  then have "(of_char c :: nat) = 48 + d" by (simp add: of_char_digit_char)
  then show ?thesis by auto
qed

lemma parse_digits_append:
  "parse_digits (xs @ ys) acc =
     (case parse_digits xs acc of None \<Rightarrow> None | Some v \<Rightarrow> parse_digits ys v)"
  by (induction xs arbitrary: acc) (auto split: option.splits)

lemma parse_digits_snoc:
  "d < 10 \<Longrightarrow> parse_digits xs acc = Some v \<Longrightarrow>
     parse_digits (xs @ [digit_char d]) acc = Some (10 * v + d)"
  by (simp add: parse_digits_append digit_val_digit_char)

lemma dec_digits_props:
  "parse_digits (dec_digits n) 0 = Some n \<and> list_all is_digit (dec_digits n) \<and> dec_digits n \<noteq> []"
proof (induction n rule: dec_digits.induct)
  case (1 n)
  show ?case
  proof (cases "n < 10")
    case True
    then have "dec_digits n = [digit_char n]" by (subst dec_digits.simps) simp
    then show ?thesis using True by (auto simp add: digit_val_digit_char is_digit_def)
  next
    case False
    then have eq: "dec_digits n = dec_digits (n div 10) @ [digit_char (n mod 10)]"
      by (subst dec_digits.simps) simp
    have ih: "parse_digits (dec_digits (n div 10)) 0 = Some (n div 10)"
      "list_all is_digit (dec_digits (n div 10))"
      using "1.IH" False by simp_all
    have "parse_digits (dec_digits n) 0 = Some (10 * (n div 10) + n mod 10)"
      unfolding eq using ih(1) by (intro parse_digits_snoc) auto
    moreover have "is_digit (digit_char (n mod 10))"
      unfolding is_digit_def by (rule exI[of _ "n mod 10"]) simp
    ultimately show ?thesis using ih(2) by (simp add: eq)
  qed
qed

lemma length_dec_digits: "n < 10 ^ m \<Longrightarrow> 0 < m \<Longrightarrow> length (dec_digits n) \<le> m"
proof (induction n arbitrary: m rule: dec_digits.induct)
  case (1 n)
  show ?case
  proof (cases "n < 10")
    case True
    then have "dec_digits n = [digit_char n]" by (subst dec_digits.simps) simp
    then show ?thesis using "1.prems" by simp
  next
    case False
    then have eq: "dec_digits n = dec_digits (n div 10) @ [digit_char (n mod 10)]"
      by (subst dec_digits.simps) simp
    obtain m' where m': "m = Suc m'" using "1.prems"(2) by (cases m) auto
    have "m' \<noteq> 0" using False "1.prems"(1) m' by (cases m') auto
    moreover have "n div 10 < 10 ^ m'" using "1.prems"(1) m' by (simp add: less_mult_imp_div_less mult.commute)
    ultimately have "length (dec_digits (n div 10)) \<le> m'"
      using "1.IH"[of m'] False by simp
    then show ?thesis by (simp add: eq m')
  qed
qed

lemma frac_digits_props:
  "parse_digits (frac_digits p f) 0 = Some (f mod 10 ^ p) \<and> list_all is_digit (frac_digits p f)
     \<and> length (frac_digits p f) = p"
proof (induction p arbitrary: f)
  case 0
  show ?case by simp
next
  case (Suc p)
  have "parse_digits (frac_digits (Suc p) f) 0 = Some (10 * ((f div 10) mod 10 ^ p) + f mod 10)"
    using Suc[of "f div 10"] by (simp add: parse_digits_snoc)
  moreover have "10 * ((f div 10) mod 10 ^ p) + f mod 10 = f mod 10 ^ Suc p"
    by (simp add: mod_mult2_eq)
  moreover have "is_digit (digit_char (f mod 10))"
    unfolding is_digit_def by (rule exI[of _ "f mod 10"]) simp
  ultimately show ?case using Suc[of "f div 10"] by simp
qed

lemma takeWhile_digits:
  assumes "list_all is_digit ip"
  shows "takeWhile (\<lambda>c. c \<noteq> CHR ''.'') (ip @ CHR ''.'' # fp) = ip"
    and "dropWhile (\<lambda>c. c \<noteq> CHR ''.'') (ip @ CHR ''.'' # fp) = CHR ''.'' # fp"
proof -
  have "\<forall>c\<in>set ip. c \<noteq> CHR ''.''" using assms is_digit_not_point by (auto simp: list_all_iff)
  then show "takeWhile (\<lambda>c. c \<noteq> CHR ''.'') (ip @ CHR ''.'' # fp) = ip"
    and "dropWhile (\<lambda>c. c \<noteq> CHR ''.'') (ip @ CHR ''.'' # fp) = CHR ''.'' # fp"
    by (simp_all add: takeWhile_append2 dropWhile_append2)
qed

lemma mpf_set_str_unsigned:
  assumes "list_all is_digit ip" "ip \<noteq> []" "parse_digits ip 0 = Some i"
    "list_all is_digit fp" "parse_digits fp 0 = Some f"
  shows "mpf_set_str rd (ip @ CHR ''.'' # fp) = Some (rd (of_nat i + of_nat f / 10 ^ length fp))"
proof -
  have "hd (ip @ CHR ''.'' # fp) \<noteq> CHR ''-''"
    using assms(1,2) is_digit_not_point by (cases ip) auto
  then show ?thesis
    using assms by (simp add: mpf_set_str_def Let_def takeWhile_digits)
qed

lemma mpf_set_str_signed:
  assumes "list_all is_digit ip" "ip \<noteq> []" "parse_digits ip 0 = Some i"
    "list_all is_digit fp" "parse_digits fp 0 = Some f"
  shows "mpf_set_str rd (CHR ''-'' # ip @ CHR ''.'' # fp)
           = Some (rd (- 1 * (of_nat i + of_nat f / 10 ^ length fp)))"
  using assms by (simp add: mpf_set_str_def Let_def takeWhile_digits)

lemma gmp_sprintf_roundtrip:
  assumes "0 < p"
  shows "mpf_set_str rd (gmp_sprintf_Ff rnd p x)
           = Some (rd ((if x < 0 then - 1 else 1) * (of_nat (nat (rnd (\<bar>x\<bar> * 10 ^ p))) / 10 ^ p)))"
proof -
  define m where "m = nat (rnd (\<bar>x\<bar> * 10 ^ p))"
  define ip where "ip = dec_digits (m div 10 ^ p)"
  define fp where "fp = frac_digits p (m mod 10 ^ p)"
  have ip: "list_all is_digit ip" "ip \<noteq> []" "parse_digits ip 0 = Some (m div 10 ^ p)"
    using dec_digits_props[of "m div 10 ^ p"] by (simp_all add: ip_def)
  have fp: "list_all is_digit fp" "parse_digits fp 0 = Some (m mod 10 ^ p)" "length fp = p"
    using frac_digits_props[of p "m mod 10 ^ p"] by (simp_all add: fp_def)
  have val: "(of_nat (m div 10 ^ p) :: rat) + of_nat (m mod 10 ^ p) / 10 ^ length fp = of_nat m / 10 ^ p"
  proof -
    have "(of_nat (m div 10 ^ p * 10 ^ p + m mod 10 ^ p) :: rat)
            = of_nat (m div 10 ^ p) * 10 ^ p + of_nat (m mod 10 ^ p)"
      by (simp only: of_nat_add of_nat_mult of_nat_power of_nat_numeral)
    then have "(of_nat m :: rat) = of_nat (m div 10 ^ p) * 10 ^ p + of_nat (m mod 10 ^ p)"
      by (simp only: div_mult_mod_eq)
    then show ?thesis by (simp add: fp(3) field_simps)
  qed
  have shape: "gmp_sprintf_Ff rnd p x = (if x < 0 then ''-'' else []) @ ip @ CHR ''.'' # fp"
    using assms by (simp add: gmp_sprintf_Ff_def Let_def m_def ip_def fp_def)
  have neg: "mpf_set_str rd (CHR ''-'' # ip @ CHR ''.'' # fp) = Some (rd (- 1 * (of_nat m / 10 ^ p)))"
    using mpf_set_str_signed[OF ip fp(1,2), of rd] unfolding val .
  have pos: "mpf_set_str rd (ip @ CHR ''.'' # fp) = Some (rd (of_nat m / 10 ^ p))"
    using mpf_set_str_unsigned[OF ip fp(1,2), of rd] unfolding val .
  show ?thesis
    unfolding m_def[symmetric] using neg pos by (simp add: shape)
qed

lemma length_gmp_sprintf:
  assumes "0 < p" "nat (rnd (\<bar>x\<bar> * 10 ^ p)) < 10 ^ (p + q)" "0 < q"
  shows "length (gmp_sprintf_Ff rnd p x) \<le> 1 + q + 1 + p"
proof -
  define m where "m = nat (rnd (\<bar>x\<bar> * 10 ^ p))"
  have "m div 10 ^ p < 10 ^ q"
    using assms(2) by (simp add: m_def power_add less_mult_imp_div_less mult.commute)
  then have "length (dec_digits (m div 10 ^ p)) \<le> q" using assms(3) by (rule length_dec_digits)
  moreover have "length (frac_digits p (m mod 10 ^ p)) = p"
    using frac_digits_props[of p "m mod 10 ^ p"] by simp
  ultimately show ?thesis
    using assms(1) unfolding gmp_sprintf_Ff_def Let_def m_def[symmetric] by simp
qed


lemma frac_digits_rec:
  "0 < p \<Longrightarrow> frac_digits p f = frac_digits (p - 1) (f div 10) @ [digit_char (f mod 10)]"
  by (cases p) simp_all


section \<open>The working precision and the size of a serialized partial sum\<close>

lemma calculate_precision_eq: "calculate_precision d = nat ((7 * d) div 2 + 64)"
proof -
  have "(of_int d :: rat) * (35 / 10) + 64 = of_int (7 * d) / of_int 2 + of_int 64" by simp
  then have "\<lfloor>(of_int d :: rat) * (35 / 10) + 64\<rfloor> = \<lfloor>(of_int (7 * d) :: rat) / of_int 2\<rfloor> + 64"
    by (simp only: floor_add_int)
  then show ?thesis by (simp only: calculate_precision_def floor_divide_of_int_eq)
qed

lemma two_power_ten_power:
  "(10::rat) ^ n \<le> 2 * 2 ^ ((7 * n) div 2)"
proof -
  define j where "j = (7 * n) div 2"
  have j: "7 * n \<le> 2 * j + 1" unfolding j_def by presburger
  have "((10::rat) ^ n)\<^sup>2 = 100 ^ n" by (simp add: power_mult_distrib[symmetric] power2_eq_square)
  also have "\<dots> \<le> 128 ^ n" by (intro power_mono) auto
  also have "\<dots> = 2 ^ (7 * n)" by (simp add: power_mult)
  also have "\<dots> \<le> 2 ^ (2 * j + 1)" using j by (intro power_increasing) auto
  also have "\<dots> \<le> (2 * 2 ^ j)\<^sup>2"
  proof -
    define Y :: rat where "Y = 2 ^ j"
    have "2 * j + 1 = Suc (j + j)" by simp
    then have "(2::rat) ^ (2 * j + 1) = 2 * (2 ^ j * 2 ^ j)" by (simp only: power_Suc power_add)
    then have "(2::rat) ^ (2 * j + 1) = 2 * (Y * Y)" by (simp only: Y_def)
    moreover have "(2 * Y)\<^sup>2 = 4 * (Y * Y)" by (simp add: power2_eq_square)
    moreover have "0 \<le> Y * Y" by simp
    ultimately show ?thesis unfolding Y_def by linarith
  qed
  finally show ?thesis unfolding j_def by (rule power2_le_imp_le) simp
qed

lemma precision_decimal:
  assumes "1 \<le> d"
  shows "(2::rat) ^ 62 * 10 ^ nat d \<le> 2 ^ (calculate_precision d - 1)"
proof -
  define n where "n = nat d"
  have "(7 * d) div 2 = int ((7 * n) div 2)" using assms by (simp add: n_def zdiv_int)
  then have p: "calculate_precision d - 1 = (7 * n) div 2 + 63"
    by (simp add: calculate_precision_eq nat_add_distrib)
  have "(2::rat) ^ 62 * 10 ^ n \<le> 2 ^ 62 * (2 * 2 ^ ((7 * n) div 2))"
    using two_power_ten_power[of n] by (intro mult_left_mono) auto
  also have "\<dots> = 2 ^ ((7 * n) div 2 + 63)" by (simp add: power_add)
  finally have "(2::rat) ^ 62 * 10 ^ n \<le> 2 ^ ((7 * n) div 2 + 63)" .
  with p show ?thesis by (simp only: n_def)
qed

lemma calculate_precision_ge: "1 \<le> d \<Longrightarrow> 2 \<le> calculate_precision d"
  by (simp add: calculate_precision_eq)

lemma working_precision:
  assumes "1 \<le> d" "mpf_accurate (calculate_precision d) rd"
  shows "\<exists>e. rel_acc e rd \<and> e * (2 ^ 62 * 10 ^ nat d) \<le> 1 \<and> e = 1 / 2 ^ (calculate_precision d - 1)"
proof -
  define e :: rat where "e = 1 / 2 ^ (calculate_precision d - 1)"
  have "rel_acc e rd"
    unfolding e_def using assms(2) calculate_precision_ge[OF assms(1)] by (rule mpf_accurate_rel_acc)
  moreover have "e * (2 ^ 62 * 10 ^ nat d) \<le> 1"
    using precision_decimal[OF assms(1)] by (simp add: e_def field_simps)
  ultimately show ?thesis using e_def by blast
qed

lemma int_le_ten_power: "int n \<le> 10 ^ n"
proof (induction n)
  case (Suc n)
  define X :: int where "X = 10 ^ n"
  have "1 \<le> X" "int n \<le> X" using Suc by (simp_all add: X_def)
  then have "int (Suc n) \<le> 10 * X" by simp
  then show ?case by (simp add: X_def)
qed simp

lemma terms_times_e:
  fixes e :: rat
  assumes "1 \<le> d" "0 \<le> e" "e * (2 ^ 62 * 10 ^ nat d) \<le> 1"
  shows "of_int (d + 10) * e \<le> 1 / 2"
proof -
  define X :: int where "X = 10 ^ nat d"
  have "d \<le> X" using int_le_ten_power[of "nat d"] assms(1) by (simp add: X_def)
  moreover have "1 \<le> X" by (simp add: X_def)
  ultimately have "2 * (d + 10) \<le> 2 ^ 62 * X" by simp
  then have "2 * (d + 10) \<le> 2 ^ 62 * 10 ^ nat d" by (simp only: X_def)
  then have "(of_int (2 * (d + 10)) :: rat) \<le> of_int (2 ^ 62 * 10 ^ nat d)"
    by (simp only: of_int_le_iff)
  then have "(2 * (of_int d + 10) :: rat) \<le> 2 ^ 62 * 10 ^ nat d" by simp
  then have "e * (2 * (of_int d + 10)) \<le> e * (2 ^ 62 * 10 ^ nat d :: rat)"
    using assms(2) by (rule mult_left_mono)
  then show ?thesis using assms(3) by (simp add: algebra_simps)
qed

lemma calculate_num_terms_value:
  "1 \<le> d \<Longrightarrow> d + 10 \<le> INT_MAX \<Longrightarrow> calculate_num_terms d = Inr (d + 10)"
  by (simp add: calculate_num_terms_def int_add_def INT_MIN_def)

lemma calculate_num_terms_returns:
  "calculate_num_terms d = Inr n \<Longrightarrow> n = d + 10 \<and> n \<le> INT_MAX"
  by (auto simp add: calculate_num_terms_def int_add_def split: if_splits)

lemma worker_partial_sum:
  assumes "1 \<le> d" "mpf_accurate (calculate_precision d) rd" "1 \<le> nproc" "0 \<le> rank"
    "calculate_num_terms d = Inr n" "compute_local_sum rd rank nproc n = Inr s"
  shows "\<bar>s\<bar> \<le> 140"
proof -
  from working_precision[OF assms(1,2)] obtain e where
    e: "rel_acc e rd" "e * (2 ^ 62 * 10 ^ nat d) \<le> 1" by blast
  have e0: "0 \<le> e" using e(1) by (simp add: rel_acc_def)
  have n: "n = d + 10" "n \<le> INT_MAX" using calculate_num_terms_returns[OF assms(5)] by simp_all
  have np: "0 < nproc" using assms(3) by simp
  have "of_int n * e \<le> 1 / 2" using terms_times_e[OF assms(1) e0 e(2)] n(1) by simp
  then show ?thesis
    using compute_local_sum_bound[OF e(1) np assms(4) n(2) _ assms(6)] by blast
qed

lemma worker_partial_sum_exists:
  assumes "1 \<le> d" "mpf_accurate (calculate_precision d) rd" "1 \<le> nproc" "0 \<le> rank"
    "d + 10 + nproc - 1 \<le> INT_MAX"
  shows "\<exists>s. compute_local_sum rd rank nproc (d + 10) = Inr s"
proof -
  from working_precision[OF assms(1,2)] obtain e where
    e: "rel_acc e rd" "e * (2 ^ 62 * 10 ^ nat d) \<le> 1" by blast
  have e0: "0 \<le> e" using e(1) by (simp add: rel_acc_def)
  have np: "0 < nproc" using assms(3) by simp
  from compute_local_sum_error[OF e(1) np assms(4,5) terms_times_e[OF assms(1) e0 e(2)]]
  show ?thesis by blast
qed

lemma print_accurate_bound:
  assumes "print_accurate rnd" "0 \<le> y"
  shows "0 \<le> rnd y" "of_int (rnd y) < y + 1" "y - 1 < of_int (rnd y)"
  using assms unfolding print_accurate_def by (auto simp: abs_less_iff) 

lemma serialized_length:
  assumes pa: "print_accurate rnd" and x: "\<bar>x\<bar> \<le> 140" and p: "0 < p"
  shows "length (gmp_sprintf_Ff rnd p x) \<le> p + 5"
proof -
  have y: "0 \<le> \<bar>x\<bar> * 10 ^ p" by simp
  have "\<bar>x\<bar> * 10 ^ p \<le> 140 * 10 ^ p" using x by (intro mult_right_mono) auto
  then have "of_int (rnd (\<bar>x\<bar> * 10 ^ p)) < (140 * 10 ^ p + 1 :: rat)"
    using print_accurate_bound(2)[OF pa y] by linarith
  also have "\<dots> \<le> 1000 * 10 ^ p"
  proof -
    define P :: rat where "P = 10 ^ p"
    have "1 \<le> P" by (simp add: P_def)
    then have "140 * P + 1 \<le> 1000 * P" by simp
    then show ?thesis by (simp only: P_def)
  qed
  finally have "of_int (rnd (\<bar>x\<bar> * 10 ^ p)) < (of_int (10 ^ (p + 3)) :: rat)"
    by (simp add: power_add)
  then have "rnd (\<bar>x\<bar> * 10 ^ p) < 10 ^ (p + 3)" by (simp only: of_int_less_iff)
  then have "nat (rnd (\<bar>x\<bar> * 10 ^ p)) < 10 ^ (p + 3)"
    using print_accurate_bound(1)[OF pa y] by (simp add: nat_less_iff)
  from length_gmp_sprintf[of p rnd x 3, OF p this] show ?thesis by simp
qed


section \<open>The big-number transport\<close>




lemma serialized_value:
  assumes pa: "print_accurate rnd" and p: "0 < p"
  shows "\<exists>v. mpf_set_str rd (gmp_sprintf_Ff rnd p x) = Some (rd v) \<and> \<bar>v - x\<bar> < 1 / 10 ^ p"
proof -
  define m where "m = nat (rnd (\<bar>x\<bar> * 10 ^ p))"
  define v :: rat where "v = (if x < 0 then - 1 else 1) * (of_nat m / 10 ^ p)"
  have y: "0 \<le> \<bar>x\<bar> * 10 ^ p" by simp
  have m: "(of_nat m :: rat) = of_int (rnd (\<bar>x\<bar> * 10 ^ p))"
    using print_accurate_bound(1)[OF pa y] by (simp add: m_def)
  have "\<bar>(of_nat m :: rat) - \<bar>x\<bar> * 10 ^ p\<bar> < 1"
    using print_accurate_bound(2,3)[OF pa y] unfolding m by (simp add: abs_less_iff)
  then have "\<bar>(of_nat m :: rat) - \<bar>x\<bar> * 10 ^ p\<bar> / 10 ^ p < 1 / 10 ^ p"
    by (intro divide_strict_right_mono) auto
  moreover have "\<bar>(of_nat m :: rat) - \<bar>x\<bar> * 10 ^ p\<bar> / 10 ^ p = \<bar>of_nat m / 10 ^ p - \<bar>x\<bar>\<bar>"
  proof -
    have "(of_nat m :: rat) / 10 ^ p - \<bar>x\<bar> = (of_nat m - \<bar>x\<bar> * 10 ^ p) / 10 ^ p"
      by (simp add: field_simps)
    then show ?thesis by (simp only: abs_divide) simp
  qed
  ultimately have "\<bar>of_nat m / 10 ^ p - \<bar>x\<bar>\<bar> < 1 / 10 ^ p" by simp
  moreover have "\<bar>v - x\<bar> = \<bar>of_nat m / 10 ^ p - \<bar>x\<bar>\<bar>"
    by (cases "x < 0") (simp_all add: v_def abs_if)
  ultimately have "\<bar>v - x\<bar> < 1 / 10 ^ p" by simp
  moreover have "mpf_set_str rd (gmp_sprintf_Ff rnd p x) = Some (rd v)"
    using gmp_sprintf_roundtrip[OF p, of rd rnd x] by (simp add: v_def m_def)
  ultimately show ?thesis by blast
qed


lemma round_trip_error:
  assumes d: "1 \<le> d" and acc: "mpf_accurate (calculate_precision d) rd"
    and pa: "print_accurate rnd" and x: "\<bar>x\<bar> \<le> 140"
  shows "\<exists>y. mpf_set_str rd (gmp_sprintf_Ff rnd (nat (d + 20)) x) = Some y
             \<and> \<bar>y - x\<bar> < 1 / 10 ^ nat (d + 15)"
proof -
  define p where "p = nat (d + 20)"
  define D :: rat where "D = 10 ^ nat d"
  have D: "1 \<le> D" by (simp add: D_def)
  have p: "0 < p" using d by (simp add: p_def)
  have tp: "(10::rat) ^ p = D * 10 ^ 20"
    using d by (simp add: p_def D_def nat_add_distrib power_add)
  have tq: "(10::rat) ^ nat (d + 15) = D * 10 ^ 15"
    using d by (simp add: D_def nat_add_distrib power_add)
  from working_precision[OF d acc] obtain e where
    e: "rel_acc e rd" "e * (2 ^ 62 * D) \<le> 1" unfolding D_def by blast
  have e0: "0 \<le> e" using e(1) by (simp add: rel_acc_def)
  from serialized_value[OF pa p] obtain v where
    v: "mpf_set_str rd (gmp_sprintf_Ff rnd p x) = Some (rd v)" "\<bar>v - x\<bar> < 1 / 10 ^ p"
    by blast
  have "1 / (10::rat) ^ p \<le> 1" by (simp add: divide_le_eq)
  then have vabs: "\<bar>v\<bar> \<le> 141" using v(2) x by linarith
  have "\<bar>rd v - v\<bar> \<le> e * \<bar>v\<bar>" by (rule rel_acc_err[OF e(1)])
  also have "\<dots> \<le> e * 141" using vabs e0 by (rule mult_left_mono)
  finally have r: "\<bar>rd v - v\<bar> \<le> 141 * e" by (simp add: mult.commute)
  have "(e * D) * 2 ^ 62 = e * (2 ^ 62 * D)" by (simp add: ac_simps)
  then have "(e * D) * 2 ^ 62 \<le> 1" using e(2) by simp
  then have "e * D \<le> 1 / 2 ^ 62" by (simp add: pos_le_divide_eq)
  then have "141 * (e * D) \<le> 141 * (1 / 2 ^ 62)" by (intro mult_left_mono) auto
  also have "\<dots> < 1 / 10 ^ 16" by simp
  finally have eD: "141 * e * D < 1 / 10 ^ 16" by (simp add: mult.assoc)
  have "\<bar>rd v - x\<bar> * D \<le> (\<bar>rd v - v\<bar> + \<bar>v - x\<bar>) * D"
    using D by (intro mult_right_mono) auto
  also have "\<dots> < (141 * e + 1 / (D * 10 ^ 20)) * D"
    using r v(2) D unfolding tp by (intro mult_strict_right_mono) auto
  also have "\<dots> = 141 * e * D + 1 / 10 ^ 20" using D by (simp add: field_simps)
  also have "\<dots> < 1 / 10 ^ 15" using eD by simp
  finally have "\<bar>rd v - x\<bar> * D < 1 / 10 ^ 15" .
  then have "\<bar>rd v - x\<bar> < 1 / (D * 10 ^ 15)" using D by (simp add: field_simps)
  then show ?thesis using v(1) unfolding tq p_def by blast
qed


section \<open>The claims about the transport\<close>

lemma round_nearest_accurate: "print_accurate round_nearest"
  unfolding print_accurate_def round_nearest_def
proof (intro allI impI conjI)
  fix y :: rat assume "0 \<le> y"
  then show "0 \<le> \<lfloor>y + 1 / 2\<rfloor>" by simp
  have "of_int \<lfloor>y + 1 / 2\<rfloor> \<le> y + 1 / 2" "y + 1 / 2 < of_int \<lfloor>y + 1 / 2\<rfloor> + 1"
    by linarith+
  then show "\<bar>of_int \<lfloor>y + 1 / 2\<rfloor> - y\<bar> < 1" by linarith
qed

lemma round_down_accurate: "print_accurate round_down"
  unfolding print_accurate_def round_down_def
proof (intro allI impI conjI)
  fix y :: rat assume "0 \<le> y"
  then show "0 \<le> \<lfloor>y\<rfloor>" by simp
  have "of_int \<lfloor>y\<rfloor> \<le> y" "y < of_int \<lfloor>y\<rfloor> + 1" by linarith+
  then show "\<bar>of_int \<lfloor>y\<rfloor> - y\<bar> < 1" by linarith
qed

lemma int_add_value: "INT_MIN \<le> a + b \<Longrightarrow> a + b \<le> INT_MAX \<Longrightarrow> int_add a b = Inr (a + b)"
  by (simp add: int_add_def)


lemma worker_sends:
  assumes "1 \<le> digits" "digits + 100 \<le> INT_MAX" "print_accurate rnd" "\<bar>s\<bar> \<le> 140" "rank \<noteq> 0"
  shows "length (gmp_sprintf_Ff rnd (nat (digits + 20)) s) + 1 \<le> nat (digits + 26)"
    and "aggregate_results rd rnd inbox pi_acc s rank nproc digits
           = Inr (pi_acc, Some (gmp_sprintf_Ff rnd (nat (digits + 20)) s))"
proof -
  have p: "0 < nat (digits + 20)" using assms(1) by simp
  have "length (gmp_sprintf_Ff rnd (nat (digits + 20)) s) \<le> nat (digits + 20) + 5"
    using assms(3,4) p by (rule serialized_length)
  then show l: "length (gmp_sprintf_Ff rnd (nat (digits + 20)) s) + 1 \<le> nat (digits + 26)"
    using assms(1) by (simp add: nat_add_distrib)
  have "nat (digits + 26) \<le> nat (digits + 100)" by simp
  with l have nf: "\<not> nat (digits + 100) < length (gmp_sprintf_Ff rnd (nat (digits + 20)) s) + 1"
    by linarith
  have a: "int_add digits 100 = Inr (digits + 100)" "int_add digits 20 = Inr (digits + 20)"
    using assms(1,2) by (simp_all add: int_add_def INT_MIN_def)
  show "aggregate_results rd rnd inbox pi_acc s rank nproc digits
           = Inr (pi_acc, Some (gmp_sprintf_Ff rnd (nat (digits + 20)) s))"
    using assms(5) nf by (simp add: aggregate_results_def a bindF_def Let_def)
qed



lemma small_partial_sum:
  "compute_local_sum exact 1 2 11
     = Inr (bbp_term 1 + bbp_term 3 + bbp_term 5 + bbp_term 7 + bbp_term 9)"
proof -
  have "stride_indices 2 11 1 = [1, 3, 5, 7, 9]" by (simp add: stride_indices.simps)
  moreover have "compute_local_sum exact 1 2 11 = run_body (sum_body exact) (stride_indices 2 11 1) 0"
    by (rule compute_local_sum_run_body) (simp_all add: INT_MAX_def)
  moreover have "run_body (sum_body exact) [1, 3, 5, 7, 9] 0 = Inr (0 + exact_sum [1, 3, 5, 7, 9])"
    by (rule run_body_exact) simp
  ultimately show ?thesis by (simp add: exact_sum_def)
qed

text \<open>
  Claim C6, as amended. For every digit count of at least 1 for which \<open>digits + 100\<close> is
  still an \<^verbatim>\<open>int\<close>, and every partial sum \<open>s\<close> that a worker has computed, the text of
  \<open>s\<close> (sign, integer digits, point, \<open>digits + 20\<close> fractional digits and the terminating
  NUL) takes at most \<open>digits + 26\<close> bytes and fits the transport buffer of \<open>digits + 100\<close>
  bytes. So \<^verbatim>\<open>gmp_sprintf\<close> does not write past the buffer, the worker sends the whole
  text, and the coordinator receives and converts all of it.
\<close>

theorem transport_buffer_sufficient:
  assumes "1 \<le> digits" and "digits + 100 \<le> INT_MAX"
    and "mpf_accurate (calculate_precision digits) rd" and "print_accurate rnd"
    and "1 \<le> nproc" and "1 \<le> rank"
    and "calculate_num_terms digits = Inr num_terms"
    and "compute_local_sum rd rank nproc num_terms = Inr s"
  shows "length (gmp_sprintf_Ff rnd (nat (digits + 20)) s) + 1 \<le> nat (digits + 26)
       \<and> nat (digits + 26) \<le> nat (digits + 100)
       \<and> aggregate_results rd rnd inbox pi_acc s rank nproc digits
             = Inr (pi_acc, Some (gmp_sprintf_Ff rnd (nat (digits + 20)) s))
       \<and> (\<exists>v. mpf_set_str rd (gmp_sprintf_Ff rnd (nat (digits + 20)) s) = Some v
              \<and> recv_all rd (\<lambda>src. Some (gmp_sprintf_Ff rnd (nat (digits + 20)) s))
                    (nat (digits + 100)) [rank] (running, received_sum)
                    = Inr (mpf_add rd running v, v))"
proof -
  have r0: "0 \<le> rank" "rank \<noteq> 0" using assms(6) by simp_all
  have s: "\<bar>s\<bar> \<le> 140"
    using assms(1,3,5) r0(1) assms(7,8) by (rule worker_partial_sum)
  note w = worker_sends[OF assms(1,2,4) s r0(2)]
  have p: "0 < nat (digits + 20)" using assms(1) by simp
  from serialized_value[OF assms(4) p, of rd s] obtain v where
    v: "mpf_set_str rd (gmp_sprintf_Ff rnd (nat (digits + 20)) s) = Some v" by blast
  have fits: "length (gmp_sprintf_Ff rnd (nat (digits + 20)) s) + 1 \<le> nat (digits + 100)"
    using w(1) by simp
  have "recv_all rd (\<lambda>src. Some (gmp_sprintf_Ff rnd (nat (digits + 20)) s))
                 (nat (digits + 100)) [rank] (running, received_sum)
          = Inr (mpf_add rd running v, v)"
    using fits v by (simp add: Let_def)
  with w v show ?thesis by auto
qed

theorem transport_buffer_sufficient_witness:
  "(1::int) \<le> 1 \<and> (1::int) + 100 \<le> INT_MAX \<and> mpf_accurate (calculate_precision 1) exact
   \<and> print_accurate round_nearest \<and> (1::int) \<le> 2
   \<and> calculate_num_terms 1 = Inr 11
   \<and> compute_local_sum exact 1 2 11
        = Inr (bbp_term 1 + bbp_term 3 + bbp_term 5 + bbp_term 7 + bbp_term 9)
   \<and> length (gmp_sprintf_Ff round_nearest (nat (1 + 20))
               (bbp_term 1 + bbp_term 3 + bbp_term 5 + bbp_term 7 + bbp_term 9)) + 1
        \<le> nat (1 + 26)
   \<and> aggregate_results exact round_nearest empty_inbox 0
         (bbp_term 1 + bbp_term 3 + bbp_term 5 + bbp_term 7 + bbp_term 9) 1 2 1
        = Inr (0, Some (gmp_sprintf_Ff round_nearest (nat (1 + 20))
               (bbp_term 1 + bbp_term 3 + bbp_term 5 + bbp_term 7 + bbp_term 9)))"
proof -
  have h: "(1::int) \<le> 1" "(1::int) + 100 \<le> INT_MAX" "(1::int) \<le> 2"
    by (simp_all add: INT_MAX_def)
  have n: "calculate_num_terms 1 = Inr 11"
    by (simp add: calculate_num_terms_def int_add_def INT_MAX_def INT_MIN_def)
  note t = transport_buffer_sufficient[OF h(1,2) exact_accurate round_nearest_accurate h(3) h(1)
      n small_partial_sum, of empty_inbox 0 0 0]
  show ?thesis
    by (intro conjI h n exact_accurate round_nearest_accurate small_partial_sum
        t[THEN conjunct1] t[THEN conjunct2, THEN conjunct2, THEN conjunct1])
qed

text \<open>
  Claim C6 as it is written, for every digit count of at least 1, fails where the size of
  the buffer is not an \<^verbatim>\<open>int\<close>: at the digit count 2147483597 the number of terms
  2147483607 is an \<^verbatim>\<open>int\<close> and worker 1 of 2 computes its partial sum, but
  \<^verbatim>\<open>digits + 100\<close> overflows, so no buffer of that size is there for the text.
\<close>

theorem transport_buffer_overflows:
  "calculate_num_terms 2147483597 = Inr 2147483607
   \<and> compute_local_sum exact 1 2 2147483607 \<noteq> Inl DivideByZero
   \<and> compute_local_sum exact 1 2 2147483607 \<noteq> Inl BufferOverrun
   \<and> compute_local_sum exact 1 2 2147483607 \<noteq> Inl NoProgress
   \<and> compute_local_sum exact 1 2 2147483607 \<noteq> Inl SignedOverflow
   \<and> aggregate_results exact round_nearest empty_inbox 0
         (projr (compute_local_sum exact 1 2 2147483607)) 1 2 2147483597 = Inl SignedOverflow"
proof -
  have n: "calculate_num_terms 2147483597 = Inr 2147483607"
    by (simp add: calculate_num_terms_def int_add_def INT_MAX_def INT_MIN_def)
  have "compute_local_sum exact 1 2 2147483607
          = run_body (sum_body exact) (stride_indices 2 2147483607 1) 0"
    by (rule compute_local_sum_run_body) (simp_all add: INT_MAX_def)
  moreover have "run_body (sum_body exact) (stride_indices 2 2147483607 1) 0
          = Inr (0 + exact_sum (stride_indices 2 2147483607 1))"
    by (rule run_body_exact) (auto simp add: set_stride_indices)
  ultimately have v: "compute_local_sum exact 1 2 2147483607
          = Inr (0 + exact_sum (stride_indices 2 2147483607 1))" by simp
  have o: "int_add 2147483597 100 = Inl SignedOverflow"
    by (simp add: int_add_def INT_MAX_def)
  have a: "aggregate_results exact round_nearest empty_inbox 0
         (projr (compute_local_sum exact 1 2 2147483607)) 1 2 2147483597 = Inl SignedOverflow"
    by (simp add: aggregate_results_def o bindF_def)
  show ?thesis using n a by (simp add: v)
qed






section \<open>Exit codes of the group\<close>

lemma main_usage:
  "d < 1 \<Longrightarrow> main trunc rnd inbox rank nproc (Some d)
     = Inr \<lparr>status = 1, usage_lines = (if rank = 0 then 1 else 0), partial_sum = None,
            sent = None, final_result = None, rendered = None\<rparr>"
  by (simp add: main_def)

lemma main_status:
  assumes "\<forall>d. arg = Some d \<longrightarrow> 1 \<le> d" and "main trunc rnd inbox rank nproc arg = Inr r"
  shows "status r = 0 \<and> usage_lines r = 0 \<and> partial_sum r \<noteq> None"
proof -
  have "\<not> (arg \<noteq> None \<and> (case arg of None \<Rightarrow> 100 | Some d \<Rightarrow> d) < 1)"
    using assms(1) by (cases arg) auto
  with assms(2) show ?thesis
    by (auto simp add: main_def bindF_def Let_def split: sum.splits prod.splits if_splits)
qed

lemma mpirun_length: "1 \<le> nproc \<Longrightarrow> length (mpirun trunc rnd nproc arg) = nat nproc"
  by (simp add: mpirun_def Let_def)

lemma mpirun_worker:
  assumes "0 < i" "i < nat nproc"
  shows "mpirun trunc rnd nproc arg ! i = main trunc rnd (\<lambda>src. None) (int i) nproc arg"
proof -
  obtain j where j: "i = Suc j" using assms(1) by (cases i) auto
  have "[1..nproc - 1] ! j = 1 + int j" using assms(2) j by (intro nth_upto) auto
  moreover have "j < length [1..nproc - 1]" using assms(2) j by simp
  ultimately show ?thesis using j by (simp add: mpirun_def Let_def)
qed

lemma mpirun_coordinator:
  "mpirun trunc rnd nproc arg ! 0
     = main trunc rnd (\<lambda>src. if 1 \<le> src \<and> src < nproc
                          then (case mpirun trunc rnd nproc arg ! nat src of
                                  Inl e \<Rightarrow> None | Inr r \<Rightarrow> sent r)
                          else None) 0 nproc arg"
proof -
  have "\<And>src. 1 \<le> src \<Longrightarrow> nat src = Suc (nat (src - 1))" by simp
  then have "(\<lambda>src. if 1 \<le> src \<and> src < nproc
                          then (case mpirun trunc rnd nproc arg ! nat src of
                                  Inl e \<Rightarrow> None | Inr r \<Rightarrow> sent r)
                          else None)
           = (\<lambda>src. if 1 \<le> src \<and> src < nproc
                          then (case map (\<lambda>rank. main trunc rnd (\<lambda>src. None) rank nproc arg)
                                       [1..nproc - 1] ! nat (src - 1) of
                                  Inl e \<Rightarrow> None | Inr r \<Rightarrow> sent r)
                          else None)"
    by (intro ext) (simp add: mpirun_def Let_def)
  then show ?thesis by (simp add: mpirun_def Let_def)
qed


lemma main_worker:
  assumes d: "1 \<le> d" "d + 100 \<le> INT_MAX" "d + 10 + nproc - 1 \<le> INT_MAX"
    and acc: "mpf_accurate (calculate_precision d) (trunc (calculate_precision d))"
    and pa: "print_accurate rnd" and np: "1 \<le> nproc" and rk: "1 \<le> rank"
  shows "\<exists>s. \<bar>s\<bar> \<le> 140
           \<and> main trunc rnd inbox rank nproc (Some d)
               = Inr \<lparr>status = 0, usage_lines = 0, partial_sum = Some s,
                      sent = Some (gmp_sprintf_Ff rnd (nat (d + 20)) s),
                      final_result = None, rendered = None\<rparr>"
proof -
  have n: "calculate_num_terms d = Inr (d + 10)"
    using d by (intro calculate_num_terms_value) (simp_all add: INT_MAX_def)
  have r0: "0 \<le> rank" "rank \<noteq> 0" using rk by simp_all
  obtain s where s: "compute_local_sum (trunc (calculate_precision d)) rank nproc (d + 10) = Inr s"
    using worker_partial_sum_exists[OF d(1) acc np r0(1) d(3)] by blast
  have b: "\<bar>s\<bar> \<le> 140" using d(1) acc np r0(1) n s by (rule worker_partial_sum)
  have a: "aggregate_results (trunc (calculate_precision d)) rnd inbox 0 s rank nproc d
             = Inr (0, Some (gmp_sprintf_Ff rnd (nat (d + 20)) s))"
    using d(1,2) pa b r0(2) by (rule worker_sends(2))
  have "main trunc rnd inbox rank nproc (Some d)
               = Inr \<lparr>status = 0, usage_lines = 0, partial_sum = Some s,
                      sent = Some (gmp_sprintf_Ff rnd (nat (d + 20)) s),
                      final_result = None, rendered = None\<rparr>"
    using d(1) r0(2) by (simp add: main_def Let_def n s a bindF_def)
  with b show ?thesis by blast
qed

lemma recv_all_bound:
  assumes acc: "rel_acc e rd"
  shows "(\<forall>src\<in>set srcs. \<exists>b v. inbox src = Some b \<and> length b + 1 \<le> buffer_size
                          \<and> mpf_set_str rd b = Some v \<and> \<bar>v\<bar> \<le> 141) \<Longrightarrow>
         \<exists>p r. recv_all rd inbox buffer_size srcs (p0, r0) = Inr (p, r)
              \<and> \<bar>p\<bar> \<le> (\<bar>p0\<bar> + 141 * of_nat (length srcs)) * (1 + e) ^ length srcs"
proof (induction srcs arbitrary: p0 r0)
  case Nil
  then show ?case by simp
next
  case (Cons src srcs)
  from Cons.prems obtain b v where b: "inbox src = Some b" "length b + 1 \<le> buffer_size"
      "mpf_set_str rd b = Some v" "\<bar>v\<bar> \<le> 141"
    by auto
  have e: "0 \<le> e" using acc by (simp add: rel_acc_def)
  define p1 where "p1 = mpf_add rd p0 v"
  have "\<bar>p1 - (p0 + v)\<bar> \<le> e * \<bar>p0 + v\<bar>"
    unfolding p1_def mpf_add_def using acc by (rule rel_acc_err)
  then have "\<bar>p1\<bar> \<le> (1 + e) * \<bar>p0 + v\<bar>" by (simp add: algebra_simps)
  also have "\<dots> \<le> (1 + e) * (\<bar>p0\<bar> + 141)"
    using e b(4) by (intro mult_left_mono) simp_all
  finally have p1: "\<bar>p1\<bar> \<le> (1 + e) * (\<bar>p0\<bar> + 141)" .
  have step: "recv_all rd inbox buffer_size (src # srcs) (p0, r0)
                = recv_all rd inbox buffer_size srcs (p1, v)"
    using b by (simp add: Let_def p1_def)
  from Cons.prems have "\<forall>src\<in>set srcs. \<exists>b v. inbox src = Some b \<and> length b + 1 \<le> buffer_size
                          \<and> mpf_set_str rd b = Some v \<and> \<bar>v\<bar> \<le> 141"
    by simp
  from Cons.IH[OF this, of p1 v] obtain p r where
    pr: "recv_all rd inbox buffer_size srcs (p1, v) = Inr (p, r)"
        "\<bar>p\<bar> \<le> (\<bar>p1\<bar> + 141 * of_nat (length srcs)) * (1 + e) ^ length srcs"
    by blast
  define g where "g = (1 + e) ^ length srcs"
  define m :: rat where "m = 141 * of_nat (length srcs)"
  have g: "0 \<le> g" using e by (simp add: g_def)
  have m: "0 \<le> m" by (simp add: m_def)
  have "\<bar>p1\<bar> + m \<le> (1 + e) * (\<bar>p0\<bar> + 141) + (1 + e) * m"
  proof -
    have "m \<le> (1 + e) * m" using e m by (simp add: algebra_simps mult_nonneg_nonneg)
    with p1 show ?thesis by linarith
  qed
  then have "(\<bar>p1\<bar> + m) * g \<le> ((1 + e) * (\<bar>p0\<bar> + 141) + (1 + e) * m) * g"
    using g by (rule mult_right_mono)
  also have "\<dots> = (\<bar>p0\<bar> + 141 * of_nat (length (src # srcs))) * (1 + e) ^ length (src # srcs)"
    by (simp add: g_def m_def algebra_simps)
  finally have "\<bar>p\<bar> \<le> (\<bar>p0\<bar> + 141 * of_nat (length (src # srcs))) * (1 + e) ^ length (src # srcs)"
    using pr(2) by (simp add: g_def m_def)
  with step pr(1) show ?case by auto
qed

lemma print_pi_returns:
  assumes d: "1 \<le> d" "d + 100 \<le> INT_MAX" and acc: "rel_acc e rd" and pa: "print_accurate rnd"
    and p: "\<bar>pi_acc\<bar> \<le> 10 ^ 12"
  shows "\<exists>out. print_pi rd rnd pi_acc d = Inr out"
proof -
  define frac where "frac = mpf_sub_ui rd pi_acc 3"
  have e: "0 \<le> e" "e \<le> 1 / 2" using acc by (simp_all add: rel_acc_def)
  have "\<bar>frac - (pi_acc - 3)\<bar> \<le> e * \<bar>pi_acc - 3\<bar>"
    unfolding frac_def mpf_sub_ui_def using acc rel_acc_err by simp
  then have "\<bar>frac\<bar> \<le> (1 + e) * \<bar>pi_acc - 3\<bar>" by (simp add: algebra_simps)
  also have "\<dots> \<le> 2 * \<bar>pi_acc - 3\<bar>" using e by (intro mult_right_mono) simp_all
  also have "\<dots> \<le> 2 * (10 ^ 12 + 3)" using p by simp
  finally have f: "\<bar>frac\<bar> \<le> 10 ^ 13 - 1" by simp
  have pd: "0 < nat d" using d by simp
  have "of_int (rnd (\<bar>frac\<bar> * 10 ^ nat d)) < \<bar>frac\<bar> * 10 ^ nat d + 1"
    using pa by (rule print_accurate_bound) simp
  also have "\<dots> \<le> (10 ^ 13 - 1) * 10 ^ nat d + 1"
    using f by (simp add: mult_right_mono)
  also have "\<dots> \<le> 10 ^ 13 * 10 ^ nat d" by (simp add: algebra_simps)
  finally have "of_int (rnd (\<bar>frac\<bar> * 10 ^ nat d)) < (of_int (10 ^ (nat d + 13)) :: rat)"
    by (simp add: power_add)
  then have "rnd (\<bar>frac\<bar> * 10 ^ nat d) < 10 ^ (nat d + 13)" by (simp only: of_int_less_iff)
  moreover have "0 \<le> rnd (\<bar>frac\<bar> * 10 ^ nat d)" using pa by (rule print_accurate_bound) simp
  ultimately have "nat (rnd (\<bar>frac\<bar> * 10 ^ nat d)) < 10 ^ (nat d + 13)"
    by (simp add: nat_less_iff)
  then have "length (gmp_sprintf_Ff rnd (nat d) frac) \<le> 1 + 13 + 1 + nat d"
    using pd by (intro length_gmp_sprintf) simp_all
  then have "\<not> nat (d + 100) < length (gmp_sprintf_Ff rnd (nat d) frac) + 1"
    using d(1) by (simp add: nat_add_distrib)
  moreover have "int_add d 100 = Inr (d + 100)"
    using d by (intro int_add_value) (simp_all add: INT_MIN_def)
  ultimately show ?thesis
    by (simp add: print_pi_def Let_def bindF_def frac_def[symmetric])
qed


lemma main_coordinator:
  assumes d: "1 \<le> d" "d + 100 \<le> INT_MAX" "d + 10 + nproc - 1 \<le> INT_MAX"
    and acc: "mpf_accurate (calculate_precision d) (trunc (calculate_precision d))"
    and pa: "print_accurate rnd" and np: "1 \<le> nproc"
    and inbox: "\<forall>src\<in>set [1..nproc - 1]. \<exists>s. \<bar>s\<bar> \<le> 140
                  \<and> inbox src = Some (gmp_sprintf_Ff rnd (nat (d + 20)) s)"
  shows "\<exists>r. main trunc rnd inbox 0 nproc (Some d) = Inr r \<and> status r = 0"
proof -
  define rd where "rd = trunc (calculate_precision d)"
  have acc': "mpf_accurate (calculate_precision d) rd" using acc by (simp add: rd_def)
  obtain e where e: "rel_acc e rd" "e * (2 ^ 62 * 10 ^ nat d) \<le> 1"
    using working_precision[OF d(1) acc'] by blast
  have e0: "0 \<le> e" using e(1) by (simp add: rel_acc_def)
  have n: "calculate_num_terms d = Inr (d + 10)"
    using d by (intro calculate_num_terms_value) (simp_all add: INT_MAX_def)
  obtain s0 where s0: "compute_local_sum rd 0 nproc (d + 10) = Inr s0"
    using worker_partial_sum_exists[OF d(1) acc' np _ d(3), of 0] by auto
  have b0: "\<bar>s0\<bar> \<le> 140" using worker_partial_sum[OF d(1) acc' np _ n s0] by simp
  have srcs: "\<forall>src\<in>set [1..nproc - 1]. \<exists>b v. inbox src = Some b \<and> length b + 1 \<le> nat (d + 100)
                          \<and> mpf_set_str rd b = Some v \<and> \<bar>v\<bar> \<le> 141"
  proof
    fix src assume "src \<in> set [1..nproc - 1]"
    with inbox obtain s where s: "\<bar>s\<bar> \<le> 140"
        "inbox src = Some (gmp_sprintf_Ff rnd (nat (d + 20)) s)"
      by blast
    have "length (gmp_sprintf_Ff rnd (nat (d + 20)) s) + 1 \<le> nat (d + 26)"
      using d(1,2) pa s(1) by (rule worker_sends(1)[where rank = 1]) simp
    then have l: "length (gmp_sprintf_Ff rnd (nat (d + 20)) s) + 1 \<le> nat (d + 100)" by simp
    obtain y where y: "mpf_set_str rd (gmp_sprintf_Ff rnd (nat (d + 20)) s) = Some y"
        "\<bar>y - s\<bar> < 1 / 10 ^ nat (d + 15)"
      using round_trip_error[OF d(1) acc' pa s(1)] by blast
    have "(1::rat) / 10 ^ nat (d + 15) \<le> 1" by simp
    with y(2) s(1) have "\<bar>y\<bar> \<le> 141" by linarith
    with s(2) l y(1) show "\<exists>b v. inbox src = Some b \<and> length b + 1 \<le> nat (d + 100)
                          \<and> mpf_set_str rd b = Some v \<and> \<bar>v\<bar> \<le> 141"
      by blast
  qed
  define m where "m = length [1..nproc - 1]"
  obtain p r where pr: "recv_all rd inbox (nat (d + 100)) [1..nproc - 1] (s0, 0) = Inr (p, r)"
      "\<bar>p\<bar> \<le> (\<bar>s0\<bar> + 141 * of_nat m) * (1 + e) ^ m"
    unfolding m_def using recv_all_bound[OF e(1) srcs, of s0 0] by blast
  have "int m = nproc - 1" using np by (simp add: m_def)
  then have "(of_nat m :: rat) = of_int (nproc - 1)" by (metis of_int_of_nat_eq)
  moreover have "(of_int (nproc - 1) :: rat) \<le> of_int 2147483648"
    using d(1,3) by (simp only: of_int_le_iff) (simp add: INT_MAX_def)
  ultimately have m: "(of_nat m :: rat) \<le> 2147483648" by simp
  have "(2::rat) ^ 62 * 10 ^ 1 \<le> 2 ^ 62 * 10 ^ nat d"
    using d(1) by (intro mult_left_mono power_increasing) simp_all
  then have "e * (2 ^ 62 * 10 ^ 1) \<le> e * (2 ^ 62 * 10 ^ nat d)"
    using e0 by (rule mult_left_mono)
  with e(2) have es: "e * 4294967296 \<le> 1" using e0 by simp
  have "of_nat m * e \<le> 2147483648 * e"
    using m e0 by (rule mult_right_mono)
  also have "\<dots> \<le> 1 / 2" using es by simp
  finally have "(1 + e) ^ m \<le> 2" using e0 by (intro one_plus_power_le_2)
  moreover have "\<bar>s0\<bar> + 141 * of_nat m \<le> 140 + 141 * 2147483648"
    using m b0 by simp
  moreover have "0 \<le> \<bar>s0\<bar> + 141 * of_nat m" by simp
  moreover have "(0::rat) \<le> (1 + e) ^ m" using e0 by simp
  ultimately have "(\<bar>s0\<bar> + 141 * of_nat m) * (1 + e) ^ m \<le> (140 + 141 * 2147483648) * 2"
    by (intro mult_mono) simp_all
  with pr(2) have pb: "\<bar>p\<bar> \<le> 10 ^ 12" by simp
  have a: "aggregate_results rd rnd inbox 0 s0 0 nproc d = Inr (p, None)"
    using d by (simp add: aggregate_results_def Let_def bindF_def pr(1)
        int_add_value INT_MIN_def)
  obtain out where out: "print_pi rd rnd p d = Inr out"
    using print_pi_returns[OF d(1,2) e(1) pa pb] by blast
  have "main trunc rnd inbox 0 nproc (Some d)
          = Inr \<lparr>status = 0, usage_lines = 0, partial_sum = Some s0, sent = None,
                 final_result = Some p, rendered = Some out\<rparr>"
    using d(1) by (simp add: main_def Let_def n s0 a out bindF_def rd_def[symmetric])
  then show ?thesis by simp
qed


lemma main_default:
  "main trunc rnd inbox rank nproc None = main trunc rnd inbox rank nproc (Some 100)"
  by (simp add: main_def)

lemma mpirun_default: "mpirun trunc rnd nproc None = mpirun trunc rnd nproc (Some 100)"
  by (simp add: mpirun_def main_default)

lemma mpirun_usage:
  assumes "d < 1" "1 \<le> nproc"
  shows "mpirun trunc rnd nproc (Some d)
     = Inr \<lparr>status = 1, usage_lines = 1, partial_sum = None, sent = None,
             final_result = None, rendered = None\<rparr>
       # replicate (nat nproc - 1)
           (Inr \<lparr>status = 1, usage_lines = 0, partial_sum = None, sent = None,
                  final_result = None, rendered = None\<rparr>)"
proof -
  have "map (\<lambda>rank. main trunc rnd (\<lambda>src. None) rank nproc (Some d)) [1..nproc - 1]
          = map (\<lambda>rank. Inr \<lparr>status = 1, usage_lines = 0, partial_sum = None, sent = None,
                  final_result = None, rendered = None\<rparr>) [1..nproc - 1]"
    using assms(1) by (intro map_cong refl) (simp add: main_usage)
  also have "\<dots> = replicate (nat nproc - 1)
           (Inr \<lparr>status = 1, usage_lines = 0, partial_sum = None, sent = None,
                  final_result = None, rendered = None\<rparr>)"
    using assms(2) by (simp add: map_replicate_const nat_diff_distrib)
  finally show ?thesis using assms(1) by (simp add: mpirun_def Let_def main_usage)
qed

lemma mpirun_returns:
  assumes d: "1 \<le> d" "d + 100 \<le> INT_MAX" "d + 10 + nproc - 1 \<le> INT_MAX"
    and acc: "mpf_accurate (calculate_precision d) (trunc (calculate_precision d))"
    and pa: "print_accurate rnd" and np: "1 \<le> nproc" and i: "i < nat nproc"
  shows "\<exists>r. mpirun trunc rnd nproc (Some d) ! i = Inr r \<and> status r = 0"
proof (cases "i = 0")
  case False
  then have "mpirun trunc rnd nproc (Some d) ! i
               = main trunc rnd (\<lambda>src. None) (int i) nproc (Some d)"
    using i by (intro mpirun_worker) simp_all
  moreover have "1 \<le> int i" using False by simp
  note main_worker[where trunc = trunc and inbox = "\<lambda>src. None", OF d acc pa np this]
  ultimately show ?thesis by auto
next
  case True
  define inbox where "inbox = (\<lambda>src. if 1 \<le> src \<and> src < nproc
                          then (case mpirun trunc rnd nproc (Some d) ! nat src of
                                  Inl e \<Rightarrow> None | Inr r \<Rightarrow> sent r)
                          else None)"
  have "\<forall>src\<in>set [1..nproc - 1]. \<exists>s. \<bar>s\<bar> \<le> 140
                  \<and> inbox src = Some (gmp_sprintf_Ff rnd (nat (d + 20)) s)"
  proof
    fix src assume "src \<in> set [1..nproc - 1]"
    then have src: "1 \<le> src" "src < nproc" by simp_all
    then have "mpirun trunc rnd nproc (Some d) ! nat src
               = main trunc rnd (\<lambda>src. None) (int (nat src)) nproc (Some d)"
      by (intro mpirun_worker) simp_all
    then have m: "mpirun trunc rnd nproc (Some d) ! nat src
               = main trunc rnd (\<lambda>src. None) src nproc (Some d)"
      using src(1) by simp
    from main_worker[where trunc = trunc and inbox = "\<lambda>src. None", OF d acc pa np src(1)]
    obtain s where
      s: "\<bar>s\<bar> \<le> 140" "main trunc rnd (\<lambda>src. None) src nproc (Some d)
               = Inr \<lparr>status = 0, usage_lines = 0, partial_sum = Some s,
                      sent = Some (gmp_sprintf_Ff rnd (nat (d + 20)) s),
                      final_result = None, rendered = None\<rparr>"
      by blast
    have "inbox src = Some (gmp_sprintf_Ff rnd (nat (d + 20)) s)"
      using src by (simp add: inbox_def m s(2))
    with s(1) show "\<exists>s. \<bar>s\<bar> \<le> 140
                  \<and> inbox src = Some (gmp_sprintf_Ff rnd (nat (d + 20)) s)"
      by blast
  qed
  from main_coordinator[where trunc = trunc, OF d acc pa np this] show ?thesis
    unfolding True inbox_def mpirun_coordinator[symmetric] .
qed

text \<open>
  Claim C7. A group of \<open>nproc\<close> processes is started on the argument \<open>d\<close> or \<open>digits\<close>.
  If \<open>d < 1\<close>, every process returns 1 from \<^verbatim>\<open>main\<close> without having computed a partial sum,
  sent a text or printed digits, and the usage message is written once, by rank 0 only.
  If \<open>1 \<le> digits\<close>, a process that returns from \<^verbatim>\<open>main\<close> returns 0, after computing its
  partial sum and without a usage message; and when the sums \<open>digits + 100\<close> and
  \<open>digits + 10 + nproc - 1\<close> fit the type \<^verbatim>\<open>int\<close> and floats and formatted output are
  accurate, every process does return. A run without argument is the run on 100.
\<close>

theorem usage_error_exit:
  assumes "1 \<le> nproc"
  shows "length (mpirun trunc rnd nproc (Some d)) = nat nproc
       \<and> (d < 1 \<longrightarrow>
            mpirun trunc rnd nproc (Some d)
              = Inr \<lparr>status = 1, usage_lines = 1, partial_sum = None, sent = None,
                      final_result = None, rendered = None\<rparr>
                # replicate (nat nproc - 1)
                    (Inr \<lparr>status = 1, usage_lines = 0, partial_sum = None, sent = None,
                           final_result = None, rendered = None\<rparr>))
       \<and> (1 \<le> digits \<longrightarrow>
            (\<forall>i r. i < nat nproc \<and> mpirun trunc rnd nproc (Some digits) ! i = Inr r
                \<longrightarrow> status r = 0 \<and> usage_lines r = 0 \<and> partial_sum r \<noteq> None))
       \<and> (1 \<le> digits \<and> digits + 100 \<le> INT_MAX \<and> digits + 10 + nproc - 1 \<le> INT_MAX
            \<and> mpf_accurate (calculate_precision digits) (trunc (calculate_precision digits))
            \<and> print_accurate rnd
          \<longrightarrow> (\<forall>i. i < nat nproc
                \<longrightarrow> (\<exists>r. mpirun trunc rnd nproc (Some digits) ! i = Inr r \<and> status r = 0)))
       \<and> mpirun trunc rnd nproc None = mpirun trunc rnd nproc (Some 100)"
proof (intro conjI impI allI)
  show "length (mpirun trunc rnd nproc (Some d)) = nat nproc"
    using assms by (rule mpirun_length)
next
  assume "d < 1"
  then show "mpirun trunc rnd nproc (Some d)
              = Inr \<lparr>status = 1, usage_lines = 1, partial_sum = None, sent = None,
                      final_result = None, rendered = None\<rparr>
                # replicate (nat nproc - 1)
                    (Inr \<lparr>status = 1, usage_lines = 0, partial_sum = None, sent = None,
                           final_result = None, rendered = None\<rparr>)"
    using assms by (rule mpirun_usage)
next
  fix i r
  assume v: "1 \<le> digits"
    and "i < nat nproc \<and> mpirun trunc rnd nproc (Some digits) ! i = Inr r"
  then have i: "i < nat nproc" and r: "mpirun trunc rnd nproc (Some digits) ! i = Inr r"
    by simp_all
  have ok: "\<forall>d. Some digits = Some d \<longrightarrow> 1 \<le> d" using v by simp
  have "\<exists>inbox. mpirun trunc rnd nproc (Some digits) ! i
          = main trunc rnd inbox (int i) nproc (Some digits)"
  proof (cases "i = 0")
    case True
    then show ?thesis using mpirun_coordinator[of trunc rnd nproc "Some digits"] by auto
  next
    case False
    then show ?thesis using mpirun_worker[of i nproc trunc rnd "Some digits"] i by auto
  qed
  then obtain inbox where "main trunc rnd inbox (int i) nproc (Some digits) = Inr r"
    using r by auto
  with ok have s: "status r = 0 \<and> usage_lines r = 0 \<and> partial_sum r \<noteq> None"
    by (rule main_status)
  from s show "status r = 0" by simp
  from s show "usage_lines r = 0" by simp
  from s show "partial_sum r \<noteq> None" by simp
next
  fix i
  assume "1 \<le> digits \<and> digits + 100 \<le> INT_MAX \<and> digits + 10 + nproc - 1 \<le> INT_MAX
            \<and> mpf_accurate (calculate_precision digits) (trunc (calculate_precision digits))
            \<and> print_accurate rnd"
    and "i < nat nproc"
  then show "\<exists>r. mpirun trunc rnd nproc (Some digits) ! i = Inr r \<and> status r = 0"
    using assms by (intro mpirun_returns) simp_all
next
  show "mpirun trunc rnd nproc None = mpirun trunc rnd nproc (Some 100)"
    by (rule mpirun_default)
qed

theorem usage_error_exit_witness:
  "(1::int) \<le> 2 \<and> (0::int) < 1 \<and> (1::int) \<le> 1 \<and> (1::int) + 100 \<le> INT_MAX
   \<and> (1::int) + 10 + 2 - 1 \<le> INT_MAX
   \<and> mpf_accurate (calculate_precision 1) (exact_at (calculate_precision 1))
   \<and> print_accurate round_nearest
   \<and> mpirun exact_at round_nearest 2 (Some 0)
       = [Inr \<lparr>status = 1, usage_lines = 1, partial_sum = None, sent = None,
                final_result = None, rendered = None\<rparr>,
          Inr \<lparr>status = 1, usage_lines = 0, partial_sum = None, sent = None,
                final_result = None, rendered = None\<rparr>]
   \<and> (\<exists>r. mpirun exact_at round_nearest 2 (Some 1) ! 0 = Inr r \<and> status r = 0)
   \<and> (\<exists>r. mpirun exact_at round_nearest 2 (Some 1) ! 1 = Inr r \<and> status r = 0)"
proof -
  have h: "(1::int) \<le> 2" "(0::int) < 1" "(1::int) \<le> 1" "(1::int) + 100 \<le> INT_MAX"
    "(1::int) + 10 + 2 - 1 \<le> INT_MAX"
    by (simp_all add: INT_MAX_def)
  have a: "mpf_accurate (calculate_precision 1) (exact_at (calculate_precision 1))"
    by (simp add: exact_at_def exact_accurate)
  note t = usage_error_exit[OF h(1), of exact_at round_nearest 0 1]
  have u: "mpirun exact_at round_nearest 2 (Some 0)
       = [Inr \<lparr>status = 1, usage_lines = 1, partial_sum = None, sent = None,
                final_result = None, rendered = None\<rparr>,
          Inr \<lparr>status = 1, usage_lines = 0, partial_sum = None, sent = None,
                final_result = None, rendered = None\<rparr>]"
    using t[THEN conjunct2, THEN conjunct1] h(2) by simp
  have r: "\<forall>i. i < nat 2
             \<longrightarrow> (\<exists>r. mpirun exact_at round_nearest 2 (Some 1) ! i = Inr r \<and> status r = 0)"
    using t[THEN conjunct2, THEN conjunct2, THEN conjunct2, THEN conjunct1] h a
      round_nearest_accurate by simp
  have r0: "\<exists>r. mpirun exact_at round_nearest 2 (Some 1) ! 0 = Inr r \<and> status r = 0"
    using r[THEN spec, of 0] by simp
  have r1: "\<exists>r. mpirun exact_at round_nearest 2 (Some 1) ! 1 = Inr r \<and> status r = 0"
    using r[THEN spec, of 1] by simp
  show ?thesis by (intro conjI h a round_nearest_accurate u r0 r1)
qed

section \<open>The digit renderer\<close>





















end
